theory Spec2Isabelle
  imports Main
begin

section \<open>JavaScript values used by lib/dtrace\_aggr2/index.js\<close>

text \<open>
  The module keeps its data in plain JavaScript objects, arrays, strings and numbers.
  \<^item> A field that may hold \<open>undefined\<close>, \<open>null\<close> or a proper value is a \<open>'a js\<close>.
  \<^item> A number that comes out of \<open>parseInt\<close> is \<open>NaN\<close> or an integer. Integers are
    modelled as \<open>int\<close>: JavaScript doubles are exact on integers of magnitude below
    \<open>2 ^ 53\<close>, and the model is exact everywhere.
  \<^item> A string is a list of 8-bit character codes, the text dtrace prints.
  \<^item> An object is the table of its own enumerable properties, in the order in which
    \<open>for ... in\<close> visits them: array-index keys in ascending numeric order first, then
    all other keys in insertion order. The name \<open>__proto__\<close> is never an own property
    of an object that the code builds: JavaScript routes it to the accessor of the
    prototype. The entry of a table under that name is the object that an assignment
    has put in the place of the prototype, if there was one.
\<close>

datatype 'a js = Undefined | Null | Val 'a

datatype jsnum = NaN | Num int

type_synonym 'v obj = "(string \<times> 'v) list"

type_synonym samples = "jsnum obj"

type_synonym metrics = "samples obj"

fun plus_js :: "jsnum \<Rightarrow> jsnum \<Rightarrow> jsnum" where
  "plus_js (Num a) (Num b) = Num (a + b)"
| "plus_js _ _ = NaN"

subsection \<open>Characters and numerals\<close>

definition isDigit :: "char \<Rightarrow> bool" where
  "isDigit c = (c \<in> set ''0123456789'')"

definition digitVal :: "char \<Rightarrow> nat" where
  "digitVal c = of_char c - 48"

definition digitsVal :: "string \<Rightarrow> nat" where
  "digitsVal ds = foldl (\<lambda>a c. 10 * a + digitVal c) 0 ds"

text \<open>The class \<open>\s\<close> of a regular expression, which is also the white space that
  \<open>parseInt\<close> skips: TAB, LF, VT, FF, CR, space and the no-break space.\<close>

definition isSpace :: "char \<Rightarrow> bool" where
  "isSpace c = (of_char c \<in> {9, 10, 11, 12, 13, 32, 160 :: nat})"

text \<open>\<open>parseInt(s, 10)\<close>: skip white space, read a sign, read the longest run of
  decimal digits; no digit gives \<open>NaN\<close>. The result \<open>-0\<close> is \<open>Num 0\<close>, since
  \<open>-0 === 0\<close>.\<close>

definition parseInt :: "string \<Rightarrow> jsnum" where
  "parseInt s =
     (let t = dropWhile isSpace s;
          neg = (take 1 t = ''-'');
          u = (if take 1 t = ''-'' \<or> take 1 t = ''+'' then drop 1 t else t);
          ds = takeWhile isDigit u
      in if ds = [] then NaN
         else Num (if neg then - int (digitsVal ds) else int (digitsVal ds)))"

text \<open>Number to string, as a template literal does it.\<close>

definition showDigit :: "nat \<Rightarrow> char" where
  "showDigit n = ''0123456789'' ! n"

function showNat :: "nat \<Rightarrow> string" where
  "showNat n = (if n < 10 then [showDigit n] else showNat (n div 10) @ [showDigit (n mod 10)])"
  by pat_completeness auto
termination
  by (relation "measure id") auto

fun showNum :: "jsnum \<Rightarrow> string" where
  "showNum NaN = ''NaN''"
| "showNum (Num i) = (if i < 0 then ''-'' @ showNat (nat (- i)) else showNat (nat i))"

subsection \<open>Strings\<close>

text \<open>\<open>s.split(d)\<close> for a one-character separator: never the empty array.\<close>

fun splitFrom :: "char \<Rightarrow> string \<Rightarrow> string \<Rightarrow> string list" where
  "splitFrom d piece [] = [piece]"
| "splitFrom d piece (c # cs) =
     (if c = d then piece # splitFrom d [] cs else splitFrom d (piece @ [c]) cs)"

definition split :: "char \<Rightarrow> string \<Rightarrow> string list" where
  "split d s = splitFrom d [] s"

subsection \<open>Objects\<close>

definition protoKey :: string where
  "protoKey = ''__proto__''"

definition hasKey :: "'v obj \<Rightarrow> string \<Rightarrow> bool" where
  "hasKey ob k = (k \<in> set (map fst ob))"

text \<open>\<open>{}.hasOwnProperty.call(ob, k)\<close>: no object here has an own property
  \<open>__proto__\<close>.\<close>

definition hasOwnProperty :: "'v obj \<Rightarrow> string \<Rightarrow> bool" where
  "hasOwnProperty ob k = (k \<noteq> protoKey \<and> hasKey ob k)"

text \<open>\<open>ob[k]\<close> where \<open>k\<close> is an own property of \<open>ob\<close>, or where \<open>k\<close> is
  \<open>__proto__\<close> and the prototype of \<open>ob\<close> has been replaced: the getter of
  \<open>__proto__\<close> returns the prototype.\<close>

definition getProp :: "'v obj \<Rightarrow> string \<Rightarrow> 'v option" where
  "getProp ob k = map_of ob k"

text \<open>An array index is the canonical decimal form of an integer below \<open>2 ^ 32 - 1\<close>.\<close>

definition isArrayIndex :: "string \<Rightarrow> bool" where
  "isArrayIndex k =
     (k \<noteq> [] \<and> list_all isDigit k \<and> (hd k \<noteq> CHR ''0'' \<or> k = ''0'')
      \<and> digitsVal k < 4294967295)"

definition keyBefore :: "string \<Rightarrow> string \<Rightarrow> bool" where
  "keyBefore k k' =
     (if isArrayIndex k' then isArrayIndex k \<and> digitsVal k < digitsVal k'
      else isArrayIndex k)"

fun insertKey :: "string \<Rightarrow> 'v \<Rightarrow> 'v obj \<Rightarrow> 'v obj" where
  "insertKey k v [] = [(k, v)]"
| "insertKey k v (p # ps) =
     (if keyBefore k (fst p) then (k, v) # p # ps else p # insertKey k v ps)"

fun updateKey :: "string \<Rightarrow> 'v \<Rightarrow> 'v obj \<Rightarrow> 'v obj" where
  "updateKey k v [] = []"
| "updateKey k v (p # ps) =
     (if fst p = k then (k, v) # ps else p # updateKey k v ps)"

text \<open>\<open>ob[k] = v\<close>, for \<open>k\<close> other than \<open>__proto__\<close> or for \<open>v\<close> an object:
  an existing property keeps its place, a new one is inserted where the enumeration order
  puts it. With \<open>k\<close> the name \<open>__proto__\<close> and \<open>v\<close> an object, the setter of
  \<open>__proto__\<close> makes \<open>v\<close> the prototype of \<open>ob\<close>, which is the entry under that
  name.\<close>

definition setProp :: "'v obj \<Rightarrow> string \<Rightarrow> 'v \<Rightarrow> 'v obj" where
  "setProp ob k v = (if hasKey ob k then updateKey k v ob else insertKey k v ob)"

text \<open>\<open>ob[k] = c\<close> for a number \<open>c\<close>: the setter of \<open>__proto__\<close> ignores a
  value that is not an object.\<close>

definition setNum :: "jsnum obj \<Rightarrow> string \<Rightarrow> jsnum \<Rightarrow> jsnum obj" where
  "setNum ob k c = (if k = protoKey then ob else setProp ob k c)"

text \<open>The own properties of an object, which \<open>for ... in\<close> visits first.\<close>

definition ownProps :: "'v obj \<Rightarrow> 'v obj" where
  "ownProps ob = filter (\<lambda>p. fst p \<noteq> protoKey) ob"

text \<open>The names that \<open>for ... in\<close> visits after the own properties: the properties
  of the prototype that no own property hides. The prototype of an object whose prototype
  was not replaced, and the prototype of a replaced prototype, is \<open>Object.prototype\<close>,
  which has no enumerable property.\<close>

definition inheritedKeys :: "'v obj obj \<Rightarrow> string list" where
  "inheritedKeys ob =
     (case getProp ob protoKey of
        None \<Rightarrow> []
      | Some proto \<Rightarrow> filter (\<lambda>k. \<not> hasOwnProperty ob k) (map fst (ownProps proto)))"

section \<open>aggregateSamples and makeHistogram\<close>

text \<open>
  The inner loop of \<open>aggregateSamples\<close>: for every sample of the source, create the
  target bucket with \<open>0\<close> if it is missing, then add the source count. The loop
  visits own properties, so the name of the sample is never \<open>__proto__\<close>.
\<close>

definition initProp :: "'v obj \<Rightarrow> string \<Rightarrow> 'v \<Rightarrow> 'v obj" where
  "initProp ob k v = (if \<not> hasOwnProperty ob k then setProp ob k v else ob)"

definition addTo :: "samples \<Rightarrow> string \<Rightarrow> jsnum \<Rightarrow> samples" where
  "addTo tgtSamples sample c =
     setProp tgtSamples sample (plus_js (the (getProp tgtSamples sample)) c)"

fun addSamples :: "samples \<Rightarrow> samples \<Rightarrow> samples" where
  "addSamples tgtSamples [] = tgtSamples"
| "addSamples tgtSamples (p # rest) =
     (if fst p = protoKey then addSamples tgtSamples rest
      else addSamples (addTo (initProp tgtSamples (fst p) (Num 0)) (fst p) (snd p)) rest)"

text \<open>The outer loop: \<open>tgt[metric]\<close> is created empty if missing, and the samples
  are added to the object it refers to.\<close>

definition addInto :: "metrics \<Rightarrow> string \<Rightarrow> samples \<Rightarrow> metrics" where
  "addInto tgt metric srcSamples =
     setProp tgt metric (addSamples (the (getProp tgt metric)) srcSamples)"

fun addMetrics :: "metrics \<Rightarrow> metrics \<Rightarrow> metrics" where
  "addMetrics tgt [] = tgt"
| "addMetrics tgt (p # rest) =
     (if fst p = protoKey then addMetrics tgt rest
      else addMetrics (addInto (initProp tgt (fst p) []) (fst p) (snd p)) rest)"

text \<open>The outer loop at a name that the source inherits from its prototype:
  \<open>tgt[metric]\<close> is created empty if missing; \<open>src[metric]\<close> is then a number, and
  \<open>for ... in\<close> over a number runs no iteration.\<close>

fun addInherited :: "metrics \<Rightarrow> string list \<Rightarrow> metrics" where
  "addInherited tgt [] = tgt"
| "addInherited tgt (metric # rest) = addInherited (initProp tgt metric []) rest"

text \<open>\<open>src === null\<close> returns at once; \<open>for ... in\<close> over \<open>undefined\<close> runs no
  iteration; over an object it visits the own properties, then the inherited names.\<close>

fun aggregateSamples :: "metrics \<Rightarrow> metrics js \<Rightarrow> metrics" where
  "aggregateSamples tgt Null = tgt"
| "aggregateSamples tgt Undefined = tgt"
| "aggregateSamples tgt (Val src) = addInherited (addMetrics tgt src) (inheritedKeys src)"

text \<open>The loop of \<open>makeHistogram\<close> keeps the own properties.\<close>

definition makeHistogram :: "samples \<Rightarrow> string list" where
  "makeHistogram smp = map (\<lambda>p. ''H['' @ fst p @ '']='' @ showNum (snd p)) (ownProps smp)"

section \<open>The class Dtrace\<close>

text \<open>
  The fields of a \<open>Dtrace\<close> object that the code reads: the script, the flag
  \<open>inline\<close>, the ring of 60 windows and \<open>lastTimestamp\<close>. The constructor never
  assigns \<open>lastTimestamp\<close>, so a new object has it \<open>undefined\<close>. The constructor
  leaves \<open>buffer\<close> and \<open>lines\<close> at \<open>null\<close>; \<open>start\<close> assigns them before it
  registers the handler that reads them, so they are fields of the started object only.
  The child process and the logger are not modelled. The clock \<open>Date.now()\<close> is an
  argument, in whole seconds: the handler of standard output reads it at every
  \<open>>END\<close>, and the model gives one reading to all the lines of a chunk. A chunk is
  the text that \<open>self.buffer += chunk\<close> appends, that is the chunk after its decoding
  to a string.
\<close>

record dtrace =
  script :: string
  inline :: bool
  windows :: "metrics js list"
  lastTimestamp :: "int js"

record state = dtrace +
  buffer :: string
  lines :: "string list"

datatype error = Error string

definition Dtrace :: "string js \<Rightarrow> error + dtrace" where
  "Dtrace scr =
     (case scr of
        Val s \<Rightarrow> Inr \<lparr>script = s, inline = (take 1 s \<noteq> ''/''),
                       windows = replicate 60 Null, lastTimestamp = Undefined\<rparr>
      | _ \<Rightarrow> Inl (Error ''Script is a required parameter for Dtrace class''))"

definition dtraceArgs :: "'a dtrace_scheme \<Rightarrow> string list" where
  "dtraceArgs self = [''-q''] @ [if inline self then ''-n'' else ''-s''] @ [script self]"

definition start :: "'a dtrace_scheme \<Rightarrow> state" where
  "start self = \<lparr>script = script self, inline = inline self, windows = windows self,
                  lastTimestamp = lastTimestamp self, buffer = [], lines = []\<rparr>"

subsection \<open>The ring\<close>

text \<open>The operator \<open>%\<close> keeps the sign of the dividend.\<close>

definition jsRem :: "int \<Rightarrow> int \<Rightarrow> int" where
  "jsRem a n = (if a < 0 then - ((- a) mod n) else a mod n)"

text \<open>
  \<open>windows[i]\<close>. A negative \<open>i\<close> names a property that is not an element of the
  array: reading it gives \<open>undefined\<close>, unless the gap loop has written \<open>null\<close> to
  it, and \<open>aggregateSamples\<close> ignores the one like the other. So a read at a negative
  index is \<open>Undefined\<close> and a write there leaves the elements alone. A write past the
  end would extend the array.
\<close>

definition readSlot :: "'a js list \<Rightarrow> int \<Rightarrow> 'a js" where
  "readSlot ws i = (if 0 \<le> i \<and> nat i < length ws then ws ! nat i else Undefined)"

definition writeSlot :: "'a js list \<Rightarrow> int \<Rightarrow> 'a js \<Rightarrow> 'a js list" where
  "writeSlot ws i v =
     (if i < 0 then ws
      else if nat i < length ws then ws[nat i := v]
      else ws @ replicate (nat i - length ws) Undefined @ [v])"

function clearAll :: "int \<Rightarrow> metrics js list \<Rightarrow> metrics js list" where
  "clearAll j ws = (if j < 60 then clearAll (j + 1) (writeSlot ws j Null) else ws)"
  by pat_completeness auto
termination
  by (relation "measure (\<lambda>(j, ws). nat (60 - j))") auto

function clearSkipped :: "int \<Rightarrow> int \<Rightarrow> metrics js list \<Rightarrow> metrics js list" where
  "clearSkipped j currTimestamp ws =
     (if j < currTimestamp
      then clearSkipped (j + 1) currTimestamp (writeSlot ws (jsRem j 60) Null)
      else ws)"
  by pat_completeness auto
termination
  by (relation "measure (\<lambda>(j, t, ws). nat (t - j))") auto

text \<open>
  The gap handling of the \<open>>END\<close> branch. With \<open>lastTimestamp\<close> undefined the
  difference is \<open>NaN\<close>, the test \<open>>= 60\<close> fails, and the loop that starts at
  \<open>undefined + 1\<close> runs no iteration.
\<close>

definition clearGap :: "int js \<Rightarrow> int \<Rightarrow> metrics js list \<Rightarrow> metrics js list" where
  "clearGap lastTs currTimestamp ws =
     (case lastTs of
        Val l \<Rightarrow> if currTimestamp - l \<ge> 60 then clearAll 0 ws
                 else clearSkipped (l + 1) currTimestamp ws
      | _ \<Rightarrow> ws)"

subsection \<open>Decoding a report\<close>

definition isLineTerminator :: "char \<Rightarrow> bool" where
  "isLineTerminator c = (of_char c \<in> {10, 13 :: nat})"

text \<open>\<open>line.match(/^=(.+)$/)\<close>: the captured group, if the line matches.\<close>

definition matchMetric :: "string \<Rightarrow> string option" where
  "matchMetric line =
     (case line of
        [] \<Rightarrow> None
      | c # rest \<Rightarrow>
          if c = CHR ''='' \<and> rest \<noteq> [] \<and> \<not> list_ex isLineTerminator rest
          then Some rest else None)"

text \<open>\<open>line.match(/\d+|\d+/)\<close>: the bar is an alternation of \<open>\d+\<close> with itself,
  so the line matches as soon as it holds a digit.\<close>

definition matchSample :: "string \<Rightarrow> bool" where
  "matchSample line = list_ex isDigit line"

text \<open>\<open>aggSample[0]\<close> and \<open>parseInt(aggSample[1], 10)\<close> for
  \<open>aggSample = line.split('|')\<close>; a missing second element is \<open>undefined\<close>, which
  \<open>parseInt\<close> reads as the string \<open>undefined\<close>.\<close>

definition latencyOf :: "string \<Rightarrow> string" where
  "latencyOf line = hd (split (CHR ''|'') line)"

definition countOf :: "string \<Rightarrow> jsnum" where
  "countOf line =
     (case tl (split (CHR ''|'') line) of
        [] \<Rightarrow> parseInt ''undefined''
      | c # _ \<Rightarrow> parseInt c)"

text \<open>
  \<open>metrics[metricKey][latency] = count\<close>, after \<open>metrics[metricKey]\<close> has been
  created if it was missing. For the metric name \<open>__proto__\<close> the test for an own
  property fails every time, so every sample line under that name makes a new empty
  object the prototype of \<open>metrics\<close> and puts its one sample there. For the label
  \<open>__proto__\<close> the count, a number, is ignored by the setter.
\<close>

definition storeSample :: "metrics \<Rightarrow> string \<Rightarrow> string \<Rightarrow> jsnum \<Rightarrow> metrics" where
  "storeSample ms metricKey latency c =
     setProp ms metricKey (setNum (the (getProp ms metricKey)) latency c)"

text \<open>The property key that a value of \<open>metricKey\<close> stands for.\<close>

fun keyOf :: "string js \<Rightarrow> string" where
  "keyOf (Val k) = k"
| "keyOf Undefined = ''undefined''"
| "keyOf Null = ''null''"

fun decodeLines :: "string list \<Rightarrow> string js \<Rightarrow> metrics \<Rightarrow> metrics" where
  "decodeLines [] metricKey ms = ms"
| "decodeLines (line # rest) metricKey ms =
     (case matchMetric line of
        Some key \<Rightarrow> decodeLines rest (Val key) ms
      | None \<Rightarrow>
          if metricKey = Null then decodeLines rest metricKey ms
          else if matchSample line then
            (if countOf line = Num 0 then decodeLines rest metricKey ms
             else decodeLines rest metricKey
                    (storeSample (initProp ms (keyOf metricKey) []) (keyOf metricKey)
                       (latencyOf line) (countOf line)))
          else decodeLines rest metricKey ms)"

subsection \<open>The handler of standard output\<close>

definition onEnd :: "state \<Rightarrow> int \<Rightarrow> state" where
  "onEnd self currTimestamp =
     (let last0 = (if lastTimestamp self = Null then Val currTimestamp
                   else lastTimestamp self);
          cleared = clearGap last0 currTimestamp (windows self);
          ms = decodeLines (lines self) Null [];
          windowIdx = jsRem currTimestamp 60;
          emptied = writeSlot cleared windowIdx Null
      in if length (lines self) > 0
         then self\<lparr>windows := writeSlot emptied windowIdx (Val ms),
                   lastTimestamp := Val currTimestamp\<rparr>
         else self\<lparr>windows := emptied, lastTimestamp := last0\<rparr>)"

text \<open>\<open>buffLine.replace(/[\s@]+/g, '')\<close>.\<close>

definition normalize :: "string \<Rightarrow> string" where
  "normalize l = filter (\<lambda>c. \<not> isSpace c \<and> c \<noteq> CHR ''@'') l"

definition onLine :: "state \<Rightarrow> int \<Rightarrow> string \<Rightarrow> state" where
  "onLine self now raw =
     (let buffLine = normalize raw
      in if take 1 buffLine \<noteq> ''>'' then self\<lparr>lines := lines self @ [buffLine]\<rparr>
         else if take 6 buffLine = ''>START'' then self\<lparr>lines := []\<rparr>
         else if take 4 buffLine = ''>END'' then onEnd self now
         else self)"

fun onLines :: "state \<Rightarrow> int \<Rightarrow> string list \<Rightarrow> state" where
  "onLines self now [] = self"
| "onLines self now (l # ls) = onLines (onLine self now l) now ls"

text \<open>
  One \<open>data\<close> event. If the last piece of the split is empty the buffer is emptied
  and the array of pieces is left as it is; otherwise the last piece is popped into the
  buffer.
\<close>

definition onData :: "state \<Rightarrow> int \<Rightarrow> string \<Rightarrow> state" where
  "onData self now chunk =
     (let buffLines = split (CHR 0x0A) (buffer self @ chunk)
      in if last buffLines = []
         then onLines (self\<lparr>buffer := []\<rparr>) now buffLines
         else onLines (self\<lparr>buffer := last buffLines\<rparr>) now (butlast buffLines))"

subsection \<open>flush\<close>

function mergeRange :: "int \<Rightarrow> int \<Rightarrow> metrics js list \<Rightarrow> metrics \<Rightarrow> metrics" where
  "mergeRange i lastTs ws aggregates =
     (if i \<le> lastTs
      then mergeRange (i + 1) lastTs ws
             (aggregateSamples aggregates (readSlot ws (jsRem i 60)))
      else aggregates)"
  by pat_completeness auto
termination
  by (relation "measure (\<lambda>(i, l, ws, a). nat (l + 1 - i))") auto

text \<open>
  The first loop of \<open>flush\<close>. The test \<open>i <= this.lastTimestamp\<close> is false against
  \<open>undefined\<close> and reads \<open>null\<close> as \<open>0\<close>.
\<close>

fun toNumber :: "int js \<Rightarrow> int option" where
  "toNumber (Val l) = Some l"
| "toNumber Null = Some 0"
| "toNumber Undefined = None"

definition flushAggregates :: "'a dtrace_scheme \<Rightarrow> int \<Rightarrow> int \<Rightarrow> metrics" where
  "flushAggregates self now numSamples =
     (case toNumber (lastTimestamp self) of
        Some l \<Rightarrow> mergeRange (now - numSamples) l (windows self) []
      | None \<Rightarrow> [])"

datatype jsfield = JStr string | JArr "string list"

definition histogramValue :: "samples \<Rightarrow> jsfield obj" where
  "histogramValue smp = [(''_type'', JStr ''n''), (''_value'', JArr (makeHistogram smp))]"

text \<open>The second loop of \<open>flush\<close> keeps the own properties of \<open>aggregates\<close>.\<close>

fun histograms :: "metrics \<Rightarrow> jsfield obj obj \<Rightarrow> jsfield obj obj" where
  "histograms [] hs = hs"
| "histograms (p # rest) hs =
     (if fst p = protoKey then histograms rest hs
      else histograms rest (setProp hs (fst p) (histogramValue (snd p))))"

definition flush :: "'a dtrace_scheme \<Rightarrow> int \<Rightarrow> int \<Rightarrow> jsfield obj obj" where
  "flush self now numSamples = histograms (flushAggregates self now numSamples) []"

declare showNat.simps [simp del]

declare clearAll.simps [simp del]

declare clearSkipped.simps [simp del]

declare mergeRange.simps [simp del]

lemmas js_defs =
  split_def isDigit_def digitVal_def digitsVal_def isSpace_def parseInt_def showDigit_def
  protoKey_def hasKey_def hasOwnProperty_def getProp_def isArrayIndex_def keyBefore_def
  setProp_def setNum_def ownProps_def inheritedKeys_def
  initProp_def addTo_def addInto_def makeHistogram_def jsRem_def readSlot_def
  writeSlot_def isLineTerminator_def matchMetric_def matchSample_def latencyOf_def
  countOf_def storeSample_def normalize_def histogramValue_def

lemmas handler_defs = onData_def onLine_def onEnd_def clearGap_def Let_def

lemmas flush_defs = flush_def flushAggregates_def mergeRange.simps showNat.simps

section \<open>Notions used in the statements\<close>

text \<open>The count that a metrics mapping holds for a metric and a bucket label, both
  own properties.\<close>

definition bucket :: "metrics \<Rightarrow> string \<Rightarrow> string \<Rightarrow> jsnum option" where
  "bucket ms metric label =
     (if metric = protoKey \<or> label = protoKey then None
      else case getProp ms metric of None \<Rightarrow> None | Some smp \<Rightarrow> getProp smp label)"

text \<open>A new aggregator, constructed and started.\<close>

definition fresh :: state where
  "fresh = start \<lparr>script = ''s'', inline = True, windows = replicate 60 Null,
                   lastTimestamp = Undefined\<rparr>"

text \<open>A slot holds no data when it is \<open>null\<close>, \<open>undefined\<close> or an empty window.\<close>

definition noData :: "metrics js \<Rightarrow> bool" where
  "noData w = (w = Null \<or> w = Undefined \<or> w = Val [])"

definition slotOf :: "metrics js list \<Rightarrow> int \<Rightarrow> metrics js" where
  "slotOf ws s = readSlot ws (jsRem s 60)"

text \<open>The keys of an object are distinct. Every object the code builds is built from
  \<open>{}\<close> by assignments, which keep them so.\<close>

definition wfObj :: "'v obj \<Rightarrow> bool" where
  "wfObj ob = distinct (map fst ob)"

definition wfMetrics :: "metrics \<Rightarrow> bool" where
  "wfMetrics ms = (wfObj ms \<and> list_all (\<lambda>p. wfObj (snd p)) ms)"

text \<open>The value that the gap handling compares the clock with.\<close>

definition gapBase :: "state \<Rightarrow> int \<Rightarrow> int js" where
  "gapBase self t = (if lastTimestamp self = Null then Val t else lastTimestamp self)"

text \<open>An aggregator whose ring is full of old windows, last written at second 100.\<close>

definition stale :: state where
  "stale = fresh\<lparr>windows := replicate 60 (Val [(''old'', [(''1'', Num 1)])]),
                 lastTimestamp := Val 100\<rparr>"

text \<open>The report of the end-to-end scenario, as one chunk of output.\<close>

definition readReport :: string where
  "readReport = ''>START\<newline>=read\<newline>10|2\<newline>20|1\<newline>>END\<newline>''"

text \<open>
  The sum of the distributions of a list of windows, in the words of the
  specification: for a metric and a bucket label, the counts of the windows that have
  the bucket are added; a bucket that no window has is absent.
\<close>

fun addCount :: "jsnum option \<Rightarrow> jsnum option \<Rightarrow> jsnum option" where
  "addCount a None = a"
| "addCount None (Some c) = Some c"
| "addCount (Some a) (Some c) = Some (plus_js a c)"

definition sumWindows :: "metrics list \<Rightarrow> string \<Rightarrow> string \<Rightarrow> jsnum option" where
  "sumWindows wins metric label = foldl addCount None (map (\<lambda>w. bucket w metric label) wins)"



text \<open>The reports \<open>rs\<close> finalized one per second from second \<open>t\<close> on: each is the
  content of the line buffer when its \<open>>END\<close> arrives.\<close>

fun recordAll :: "state \<Rightarrow> int \<Rightarrow> string list list \<Rightarrow> state" where
  "recordAll self t [] = self"
| "recordAll self t (ls # rest) = recordAll (onEnd (self\<lparr>lines := ls\<rparr>) t) (t + 1) rest"

text \<open>The last \<open>m\<close> elements of a list, or all of them if there are fewer.\<close>

definition lastN :: "nat \<Rightarrow> 'a list \<Rightarrow> 'a list" where
  "lastN m xs = drop (length xs - m) xs"

section \<open>flush on a store of objects\<close>

text \<open>
  A second embedding of \<open>flush\<close>, \<open>aggregateSamples\<close> and \<open>makeHistogram\<close>, in
  which objects live in a store and are named by their addresses: the store is the list
  of all objects, \<open>{}\<close> appends an empty object, and an assignment to a property
  replaces the object at an address. The ring holds addresses of windows, a window holds
  addresses of distributions. The loop \<open>for ... in\<close> visits the keys that the object
  has when the loop starts: its own properties, then the names that it inherits from an
  object put in the place of its prototype, whose address is the entry under
  \<open>__proto__\<close>. No key that a loop visits is \<open>__proto__\<close>. The histograms that
  \<open>flush\<close> returns are new objects handed to the caller; they are returned as a value.
\<close>

datatype hval = HNum jsnum | HRef nat

type_synonym heap = "hval obj list"

record store =
  objects :: heap
  ring :: "nat js list"
  cursor :: "int js"

text \<open>A property holds a number or the address of an object. In the stores that the
  code builds, a window holds addresses and a distribution holds numbers; the other
  cases of the functions below are not reached there.\<close>

fun numOf :: "hval \<Rightarrow> jsnum" where
  "numOf (HNum c) = c"
| "numOf (HRef a) = NaN"

definition initPropH :: "heap \<Rightarrow> nat \<Rightarrow> string \<Rightarrow> hval \<Rightarrow> heap" where
  "initPropH h a k v = (if \<not> hasOwnProperty (h ! a) k then h[a := setProp (h ! a) k v] else h)"

definition addToH :: "heap \<Rightarrow> nat \<Rightarrow> nat \<Rightarrow> string \<Rightarrow> heap" where
  "addToH h tgtSamples srcSamples sample =
     h[tgtSamples := setProp (h ! tgtSamples) sample
         (HNum (plus_js (numOf (the (getProp (h ! tgtSamples) sample)))
                        (numOf (the (getProp (h ! srcSamples) sample)))))]"

fun addSamplesH :: "heap \<Rightarrow> nat \<Rightarrow> nat \<Rightarrow> string list \<Rightarrow> heap" where
  "addSamplesH h tgtSamples srcSamples [] = h"
| "addSamplesH h tgtSamples srcSamples (sample # rest) =
     addSamplesH
       (addToH (initPropH h tgtSamples sample (HNum (Num 0))) tgtSamples srcSamples sample)
       tgtSamples srcSamples rest"

text \<open>\<open>tgt[metric] = {}\<close> if the target has no such property: the new object gets
  the next address.\<close>

definition newProp :: "heap \<Rightarrow> nat \<Rightarrow> string \<Rightarrow> heap" where
  "newProp h tgt metric =
     (if \<not> hasOwnProperty (h ! tgt) metric
      then (h @ [[]])[tgt := setProp (h ! tgt) metric (HRef (length h))]
      else h)"

definition addIntoH :: "heap \<Rightarrow> nat \<Rightarrow> nat \<Rightarrow> string \<Rightarrow> heap" where
  "addIntoH h tgt src metric =
     (case getProp (h ! src) metric of
        Some (HRef srcSamples) \<Rightarrow>
          (case getProp (h ! tgt) metric of
             Some (HRef tgtSamples) \<Rightarrow>
               addSamplesH h tgtSamples srcSamples (map fst (ownProps (h ! srcSamples)))
           | _ \<Rightarrow> h)
      | _ \<Rightarrow> h)"

fun addMetricsH :: "heap \<Rightarrow> nat \<Rightarrow> nat \<Rightarrow> string list \<Rightarrow> heap" where
  "addMetricsH h tgt src [] = h"
| "addMetricsH h tgt src (metric # rest) =
     addMetricsH (addIntoH (newProp h tgt metric) tgt src metric) tgt src rest"

fun addInheritedH :: "heap \<Rightarrow> nat \<Rightarrow> string list \<Rightarrow> heap" where
  "addInheritedH h tgt [] = h"
| "addInheritedH h tgt (metric # rest) = addInheritedH (newProp h tgt metric) tgt rest"

text \<open>The names that the object at \<open>src\<close> inherits from the object that replaced its
  prototype.\<close>

definition inheritedKeysH :: "heap \<Rightarrow> nat \<Rightarrow> string list" where
  "inheritedKeysH h src =
     (case getProp (h ! src) protoKey of
        Some (HRef proto) \<Rightarrow>
          filter (\<lambda>k. \<not> hasOwnProperty (h ! src) k) (map fst (ownProps (h ! proto)))
      | _ \<Rightarrow> [])"

fun aggregateSamplesH :: "heap \<Rightarrow> nat \<Rightarrow> nat js \<Rightarrow> heap" where
  "aggregateSamplesH h tgt Null = h"
| "aggregateSamplesH h tgt Undefined = h"
| "aggregateSamplesH h tgt (Val src) =
     addInheritedH (addMetricsH h tgt src (map fst (ownProps (h ! src)))) tgt
       (inheritedKeysH h src)"

function mergeRangeH :: "int \<Rightarrow> int \<Rightarrow> nat js list \<Rightarrow> heap \<Rightarrow> nat \<Rightarrow> heap" where
  "mergeRangeH i lastTs ws h aggregates =
     (if i \<le> lastTs
      then mergeRangeH (i + 1) lastTs ws
             (aggregateSamplesH h aggregates (readSlot ws (jsRem i 60))) aggregates
      else h)"
  by pat_completeness auto
termination
  by (relation "measure (\<lambda>(i, l, ws, h, a). nat (l + 1 - i))") auto

declare mergeRangeH.simps [simp del]

definition makeHistogramH :: "heap \<Rightarrow> hval \<Rightarrow> string list" where
  "makeHistogramH h v =
     (case v of
        HRef a \<Rightarrow>
          map (\<lambda>p. ''H['' @ fst p @ '']='' @ showNum (numOf (snd p))) (ownProps (h ! a))
      | HNum c \<Rightarrow> [])"

fun histogramsH :: "heap \<Rightarrow> hval obj \<Rightarrow> jsfield obj obj \<Rightarrow> jsfield obj obj" where
  "histogramsH h [] hs = hs"
| "histogramsH h (p # rest) hs =
     (if fst p = protoKey then histogramsH h rest hs
      else histogramsH h rest
             (setProp hs (fst p)
                [(''_type'', JStr ''n''), (''_value'', JArr (makeHistogramH h (snd p)))]))"

text \<open>\<open>flush\<close> assigns no field of the aggregator; what it can change is the
  store, which it returns with the histograms.\<close>

definition flushH :: "store \<Rightarrow> int \<Rightarrow> int \<Rightarrow> store \<times> jsfield obj obj" where
  "flushH self now numSamples =
     (let aggregates = length (objects self);
          h0 = objects self @ [[]];
          h1 = (case toNumber (cursor self) of
                  Some l \<Rightarrow> mergeRangeH (now - numSamples) l (ring self) h0 aggregates
                | None \<Rightarrow> h0)
      in (self\<lparr>objects := h1\<rparr>, histogramsH h1 (h1 ! aggregates) []))"

lemmas heap_defs = initPropH_def addToH_def newProp_def addIntoH_def makeHistogramH_def
  inheritedKeysH_def flushH_def mergeRangeH.simps Let_def

text \<open>
  The target of the merge is private from the address \<open>base\<close> on: it lies at or above
  \<open>base\<close>, and its properties are references to objects at or above \<open>base\<close>, all
  different and none the target itself.
\<close>

fun privRef :: "nat \<Rightarrow> nat \<Rightarrow> nat \<Rightarrow> hval \<Rightarrow> bool" where
  "privRef base n tgt (HRef b) = (base \<le> b \<and> b < n \<and> b \<noteq> tgt)"
| "privRef base n tgt (HNum c) = False"

definition privTgt :: "nat \<Rightarrow> heap \<Rightarrow> nat \<Rightarrow> bool" where
  "privTgt base h tgt =
     (base \<le> tgt \<and> tgt < length h \<and> wfObj (h ! tgt) \<and> distinct (map snd (h ! tgt))
      \<and> list_all (\<lambda>p. privRef base (length h) tgt (snd p)) (h ! tgt))"

definition mapVals :: "('a \<Rightarrow> 'b) \<Rightarrow> 'a obj \<Rightarrow> 'b obj" where
  "mapVals f ob = map (\<lambda>p. (fst p, f (snd p))) ob"

fun absSamples :: "heap \<Rightarrow> hval \<Rightarrow> samples" where
  "absSamples h (HRef b) = mapVals numOf (h ! b)"
| "absSamples h (HNum c) = []"

definition absObj :: "heap \<Rightarrow> nat \<Rightarrow> metrics" where
  "absObj h a = mapVals (absSamples h) (h ! a)"

fun absSlot :: "heap \<Rightarrow> nat js \<Rightarrow> metrics js" where
  "absSlot h (Val a) = Val (absObj h a)"
| "absSlot h Null = Null"
| "absSlot h Undefined = Undefined"

text \<open>A window of the ring is well formed below \<open>base\<close>: its address and the
  addresses of its distributions are below \<open>base\<close>, and keys are distinct.\<close>

fun wfSamplesRef :: "heap \<Rightarrow> nat \<Rightarrow> hval \<Rightarrow> bool" where
  "wfSamplesRef h base (HRef b) = (b < base \<and> wfObj (h ! b))"
| "wfSamplesRef h base (HNum c) = False"

fun wfSlot :: "heap \<Rightarrow> nat \<Rightarrow> nat js \<Rightarrow> bool" where
  "wfSlot h base (Val a) =
     (a < base \<and> wfObj (h ! a) \<and> list_all (\<lambda>p. wfSamplesRef h base (snd p)) (h ! a))"
| "wfSlot h base Null = True"
| "wfSlot h base Undefined = True"

definition wfStore :: "store \<Rightarrow> bool" where
  "wfStore self =
     list_all (wfSlot (objects self) (length (objects self))) (ring self)"

definition absStore :: "store \<Rightarrow> dtrace" where
  "absStore self =
     \<lparr>script = [], inline = True, windows = map (absSlot (objects self)) (ring self),
      lastTimestamp = cursor self\<rparr>"

text \<open>A store with two windows, in the slots of the seconds 100 and 101.\<close>

definition demo :: store where
  "demo = \<lparr>objects = [[(''read'', HRef 1)], [(''10'', HNum (Num 2)), (''20'', HNum (Num 1))],
                      [(''read'', HRef 3), (''write'', HRef 4)], [(''10'', HNum (Num 5))], [(''7'', HNum (Num 1))]],
           ring = (replicate 60 Null)[40 := Val 0, 41 := Val 2], cursor = Val 101\<rparr>"

section \<open>Objects as finite maps\<close>

lemma replicate_update_same: "(replicate n x)[i := x] = replicate n x"
  by (induction n arbitrary: i) (auto split: nat.splits simp: list_update_code)

lemma map_of_updateKey:
  "map_of (updateKey k v ob) k' =
     (if k' = k \<and> k \<in> set (map fst ob) then Some v else map_of ob k')"
  by (induction ob) (auto simp: rev_image_eqI)

lemma map_of_insertKey:
  "k \<notin> set (map fst ob) \<Longrightarrow>
     map_of (insertKey k v ob) k' = (if k' = k then Some v else map_of ob k')"
  by (induction ob) auto

lemma getProp_empty: "getProp [] k = None"
  by (simp add: getProp_def)

lemma getProp_setProp:
  "getProp (setProp ob k v) k' = (if k' = k then Some v else getProp ob k')"
  by (simp add: getProp_def setProp_def hasKey_def map_of_updateKey map_of_insertKey)

lemma hasKey_getProp: "hasKey ob k \<longleftrightarrow> getProp ob k \<noteq> None"
  by (simp add: hasKey_def getProp_def map_of_eq_None_iff)

lemma hasOwnProperty_getProp:
  "hasOwnProperty ob k \<longleftrightarrow> k \<noteq> protoKey \<and> getProp ob k \<noteq> None"
  by (simp add: hasOwnProperty_def hasKey_getProp)

lemma getProp_initProp:
  "getProp (initProp ob k v) k' =
     (if k' = k \<and> (k = protoKey \<or> getProp ob k = None) then Some v else getProp ob k')"
  by (auto simp: initProp_def getProp_setProp hasOwnProperty_getProp)


section \<open>The decoder\<close>


text \<open>
  The name \<open>__proto__\<close>. Under the metric name \<open>__proto__\<close> every sample line puts
  a new object in the place of the prototype of the metrics, so only the last sample is
  left there, and the merge meets its label as an inherited metric name, for which it
  creates an empty distribution. Under the label \<open>__proto__\<close> the metric is created
  and no count is stored.
\<close>

lemma decodeLines_proto:
  "decodeLines [''=__proto__'', ''10|2'', ''20|1''] Null [] = [(''__proto__'', [(''20'', Num 1)])]
   \<and> decodeLines [''=read'', ''__proto__|3''] Null [] = [(''read'', [])]
   \<and> aggregateSamples [] (Val [(''__proto__'', [(''20'', Num 1)])]) = [(''20'', [])]
   \<and> bucket [(''__proto__'', [(''20'', Num 1)])] ''__proto__'' ''20'' = None"
  by (simp add: js_defs bucket_def)

text \<open>
  C4. At the end of a report, a data line is recorded as a sample only if it has the
  form \<open>label|count\<close> with a decimal count. The code does not do that: its test for
  a sample line, \<open>/\d+|\d+/\<close>, holds for every line with a digit in it. Under the
  metric \<open>foo\<close> the line \<open>123\<close>, which has no bar and no count, is stored as the
  bucket \<open>123\<close> with the count \<open>NaN\<close>.
\<close>

theorem C4_line_without_count_is_recorded:
  "decodeLines [''=foo'', ''123''] Null [] = [(''foo'', [(''123'', NaN)])]"
  by (simp add: js_defs)

text \<open>
  C5. Every stored count is a non-negative integer and no bucket with count zero is
  stored. The code stores what \<open>parseInt\<close> returns unless it is \<open>0\<close>: the line
  \<open>5|-3\<close> leaves the count \<open>-3\<close> and the line \<open>7\<close> leaves \<open>NaN\<close>, and
  \<open>flush\<close> prints both. The line \<open>5|0\<close> leaves nothing.
\<close>

theorem C5_negative_and_NaN_counts_are_stored:
  "decodeLines [''=foo'', ''5|-3'', ''7''] Null [] = [(''foo'', [(''5'', Num (- 3)), (''7'', NaN)])]
   \<and> makeHistogram [(''5'', Num (- 3)), (''7'', NaN)] = [''H[5]=-3'', ''H[7]=NaN'']
   \<and> decodeLines [''=foo'', ''5|0''] Null [] = []"
  by (simp add: js_defs showNat.simps)

section \<open>The line framer\<close>

text \<open>
  C6. Cutting the output of the child into chunks at any place gives the same lines
  and the same reports as one chunk. The code does not do that: when a chunk ends with
  a newline the empty last piece of the split stays in the array and is pushed as a
  line. For the output \<open>>START\<close>, newline, \<open>>END\<close>, newline at second 100, one
  chunk stores nothing, while a cut after the first newline makes the report hold one
  empty line, so an empty window is stored in slot 40 and \<open>lastTimestamp\<close> becomes
  100.
\<close>

theorem C6_chunk_boundary_after_newline_changes_report:
  "lastTimestamp (onData fresh 100 ''>START\<newline>>END\<newline>'') = Undefined
   \<and> windows (onData fresh 100 ''>START\<newline>>END\<newline>'') = replicate 60 Null
   \<and> lastTimestamp (onData (onData fresh 100 ''>START\<newline>'') 100 ''>END\<newline>'') = Val 100
   \<and> windows (onData (onData fresh 100 ''>START\<newline>'') 100 ''>END\<newline>'')
       = (replicate 60 Null)[40 := Val []]"
  by (simp add: fresh_def start_def handler_defs js_defs replicate_update_same)

section \<open>Merging a span of seconds\<close>

lemma aggregateSamples_noData: "noData w \<Longrightarrow> aggregateSamples agg w = agg"
  by (auto simp: noData_def inheritedKeys_def getProp_empty)

lemma mergeRange_unfold:
  "i \<le> l \<Longrightarrow>
     mergeRange i l ws agg = mergeRange (i + 1) l ws (aggregateSamples agg (slotOf ws i))"
  by (simp add: mergeRange.simps [of i] slotOf_def)

lemma mergeRange_stop: "l < i \<Longrightarrow> mergeRange i l ws agg = agg"
  by (simp add: mergeRange.simps [of i])

lemma mergeRange_noData:
  "(\<And>j. i \<le> j \<Longrightarrow> j \<le> l \<Longrightarrow> noData (slotOf ws j)) \<Longrightarrow> mergeRange i l ws agg = agg"
proof (induction i l ws agg rule: mergeRange.induct)
  case (1 i l ws agg)
  show ?case
  proof (cases "i \<le> l")
    case True
    have "noData (slotOf ws i)"
      using "1.prems" [of i] True by simp
    then have same: "aggregateSamples agg (slotOf ws i) = agg"
      by (rule aggregateSamples_noData)
    have "mergeRange (i + 1) l ws (aggregateSamples agg (readSlot ws (jsRem i 60)))
            = aggregateSamples agg (readSlot ws (jsRem i 60))"
      using "1.IH" [OF True] "1.prems" by simp
    then show ?thesis
      using True same by (simp add: mergeRange_unfold slotOf_def)
  next
    case False
    then show ?thesis by (simp add: mergeRange_stop)
  qed
qed

lemma mergeRange_last:
  "i \<le> l + 1 \<Longrightarrow>
     mergeRange i (l + 1) ws agg = aggregateSamples (mergeRange i l ws agg) (slotOf ws (l + 1))"
proof (induction i l ws agg rule: mergeRange.induct)
  case (1 i l ws agg)
  show ?case
  proof (cases "i \<le> l")
    case True
    then show ?thesis
      using "1.IH" [OF True] by (simp add: mergeRange_unfold slotOf_def)
  next
    case False
    with "1.prems" have "i = l + 1" by simp
    then show ?thesis
      by (simp add: mergeRange_unfold mergeRange_stop)
  qed
qed

lemma jsRem_nonneg: "0 \<le> a \<Longrightarrow> jsRem a 60 = a mod 60"
  by (simp add: jsRem_def)

lemma slotOf_nonneg:
  "0 \<le> s \<Longrightarrow> length ws = 60 \<Longrightarrow> slotOf ws s = ws ! nat (s mod 60)"
  by (simp add: slotOf_def jsRem_nonneg readSlot_def nat_less_iff)

lemma slotOf_negative:
  "s < 0 \<Longrightarrow> - 60 < s \<Longrightarrow> slotOf ws s = Undefined"
  by (simp add: slotOf_def jsRem_def readSlot_def)

section \<open>Reading and writing the ring\<close>

lemma jsRem_bounds: "- 60 < jsRem a 60 \<and> jsRem a 60 < 60"
proof (cases "a < 0")
  case True
  then have "jsRem a 60 = - ((- a) mod 60)" by (simp add: jsRem_def)
  moreover have "0 \<le> (- a) mod 60" and "(- a) mod 60 < 60" by simp_all
  ultimately show ?thesis by linarith
next
  case False
  then have "jsRem a 60 = a mod 60" by (simp add: jsRem_def)
  moreover have "0 \<le> a mod 60" and "a mod 60 < 60" by simp_all
  ultimately show ?thesis by linarith
qed

lemma length_writeSlot:
  "length ws = 60 \<Longrightarrow> length (writeSlot ws (jsRem a 60) v) = 60"
  using jsRem_bounds [of a] by (simp add: writeSlot_def nat_less_iff)

lemma mod_60_range:
  fixes a :: int
  shows "0 \<le> a mod 60" and "a mod 60 < 60" and "nat (a mod 60) < 60"
  by simp_all

lemma readSlot_writeSlot:
  "length ws = 60 \<Longrightarrow> 0 \<le> i \<Longrightarrow> i < 60 \<Longrightarrow> 0 \<le> k \<Longrightarrow> k < 60 \<Longrightarrow>
     readSlot (writeSlot ws i v) k = (if k = i then v else readSlot ws k)"
  by (simp add: writeSlot_def readSlot_def nat_less_iff nat_eq_iff)

lemma slotOf_write_same:
  "length ws = 60 \<Longrightarrow> 0 \<le> t \<Longrightarrow> slotOf (writeSlot ws (jsRem t 60) v) t = v"
  by (simp add: slotOf_def jsRem_nonneg readSlot_writeSlot)

lemma mod_60_differ:
  fixes j t :: int
  assumes "t - 60 < j" and "j < t + 60" and "j \<noteq> t"
  shows "j mod 60 \<noteq> t mod 60"
proof
  assume "j mod 60 = t mod 60"
  then have "60 dvd j - t" by (simp add: mod_eq_dvd_iff)
  then obtain q where q: "j - t = 60 * q" by (auto simp: dvd_def)
  with assms have "- 1 < q" and "q < 1" by simp_all
  then have "q = 0" by simp
  with q assms show False by simp
qed

lemma slotOf_write_other:
  assumes "length ws = 60" and "0 \<le> t" and "t - 60 < j" and "j < t + 60" and "j \<noteq> t"
  shows "slotOf (writeSlot ws (jsRem t 60) v) j = slotOf ws j"
proof (cases "j < 0")
  case True
  with assms have "- 60 < j" by simp
  with True show ?thesis by (simp add: slotOf_negative)
next
  case False
  then have j: "0 \<le> j" by simp
  have "j mod 60 \<noteq> t mod 60"
    using assms by (intro mod_60_differ) simp_all
  then show ?thesis
    using assms j by (simp add: slotOf_def jsRem_nonneg readSlot_writeSlot)
qed

lemma slotOf_replicate_Null: "noData (slotOf (replicate 60 Null) j)"
  using jsRem_bounds [of j] by (simp add: slotOf_def readSlot_def noData_def nat_less_iff)

lemma length_clearSkipped:
  "length ws = 60 \<Longrightarrow> length (clearSkipped j t ws) = 60"
proof (induction j t ws rule: clearSkipped.induct)
  case (1 j t ws)
  show ?case
  proof (cases "j < t")
    case True
    then show ?thesis
      using "1.IH" [OF True] "1.prems"
      by (simp add: clearSkipped.simps [of j] length_writeSlot)
  next
    case False
    then show ?thesis using "1.prems" by (simp add: clearSkipped.simps [of j])
  qed
qed

text \<open>The gap loop clears the slots of the seconds from \<open>j\<close> up to, not including,
  \<open>t\<close>, and no other slot.\<close>

lemma readSlot_clearSkipped:
  assumes "length ws = 60" and "0 \<le> j" and "0 \<le> k" and "k < 60"
  shows "readSlot (clearSkipped j t ws) k =
           (if \<exists>s. j \<le> s \<and> s < t \<and> s mod 60 = k then Null else readSlot ws k)"
  using assms
proof (induction j t ws rule: clearSkipped.induct)
  case (1 j t ws)
  show ?case
  proof (cases "j < t")
    case True
    let ?ws = "writeSlot ws (jsRem j 60) Null"
    have len: "length ?ws = 60"
      using "1.prems" by (simp add: length_writeSlot)
    have step: "readSlot (clearSkipped (j + 1) t ?ws) k =
                  (if \<exists>s. j + 1 \<le> s \<and> s < t \<and> s mod 60 = k then Null else readSlot ?ws k)"
      using "1.IH" [OF True len] "1.prems" by simp
    have here: "readSlot ?ws k = (if j mod 60 = k then Null else readSlot ws k)"
      using "1.prems" by (auto simp: jsRem_nonneg readSlot_writeSlot)
    have split: "(\<exists>s. j \<le> s \<and> s < t \<and> s mod 60 = k)
                   \<longleftrightarrow> j mod 60 = k \<or> (\<exists>s. j + 1 \<le> s \<and> s < t \<and> s mod 60 = k)"
    proof
      assume "\<exists>s. j \<le> s \<and> s < t \<and> s mod 60 = k"
      then obtain s where s: "j \<le> s" "s < t" "s mod 60 = k" by blast
      show "j mod 60 = k \<or> (\<exists>s. j + 1 \<le> s \<and> s < t \<and> s mod 60 = k)"
      proof (cases "s = j")
        case True
        with s show ?thesis by simp
      next
        case False
        with s have "j + 1 \<le> s" by simp
        with s show ?thesis by blast
      qed
    next
      assume "j mod 60 = k \<or> (\<exists>s. j + 1 \<le> s \<and> s < t \<and> s mod 60 = k)"
      then show "\<exists>s. j \<le> s \<and> s < t \<and> s mod 60 = k"
      proof
        assume "j mod 60 = k"
        with True show ?thesis by blast
      next
        assume "\<exists>s. j + 1 \<le> s \<and> s < t \<and> s mod 60 = k"
        then obtain s where "j + 1 \<le> s" "s < t" "s mod 60 = k" by blast
        then have "j \<le> s \<and> s < t \<and> s mod 60 = k" by simp
        then show ?thesis by blast
      qed
    qed
    have "clearSkipped j t ws = clearSkipped (j + 1) t ?ws"
      using True by (simp add: clearSkipped.simps [of j])
    with step here show ?thesis
      unfolding split by (cases "j mod 60 = k") auto
  next
    case False
    then have "clearSkipped j t ws = ws"
      by (simp add: clearSkipped.simps [of j])
    moreover have "\<not> (\<exists>s. j \<le> s \<and> s < t \<and> s mod 60 = k)"
      using False by auto
    ultimately show ?thesis by auto
  qed
qed

lemma length_clearAll:
  "length ws = 60 \<Longrightarrow> 0 \<le> j \<Longrightarrow> length (clearAll j ws) = 60"
proof (induction j ws rule: clearAll.induct)
  case (1 j ws)
  show ?case
  proof (cases "j < 60")
    case True
    have "length (writeSlot ws j Null) = 60"
      using "1.prems" True by (simp add: writeSlot_def nat_less_iff)
    then show ?thesis
      using "1.IH" [OF True] "1.prems" True by (simp add: clearAll.simps [of j])
  next
    case False
    then show ?thesis using "1.prems" by (simp add: clearAll.simps [of j])
  qed
qed

lemma readSlot_clearAll:
  assumes "length ws = 60" and "0 \<le> j" and "0 \<le> k" and "k < 60"
  shows "readSlot (clearAll j ws) k = (if j \<le> k then Null else readSlot ws k)"
  using assms
proof (induction j ws rule: clearAll.induct)
  case (1 j ws)
  show ?case
  proof (cases "j < 60")
    case True
    let ?ws = "writeSlot ws j Null"
    have len: "length ?ws = 60"
      using "1.prems" True by (simp add: writeSlot_def nat_less_iff)
    have "readSlot (clearAll (j + 1) ?ws) k = (if j + 1 \<le> k then Null else readSlot ?ws k)"
      using "1.IH" [OF True len] "1.prems" by simp
    moreover have "readSlot ?ws k = (if k = j then Null else readSlot ws k)"
      using "1.prems" True by (simp add: readSlot_writeSlot)
    moreover have "clearAll j ws = clearAll (j + 1) ?ws"
      using True by (simp add: clearAll.simps [of j])
    ultimately show ?thesis by auto
  next
    case False
    then show ?thesis using "1.prems" by (simp add: clearAll.simps [of j])
  qed
qed

lemma length_clearGap:
  "length ws = 60 \<Longrightarrow> length (clearGap lastTs t ws) = 60"
  by (cases lastTs) (simp_all add: clearGap_def length_clearSkipped length_clearAll)

lemma slotOf_clearSkipped:
  assumes "length ws = 60" and "0 \<le> j" and "0 \<le> s"
  shows "slotOf (clearSkipped j t ws) s =
           (if \<exists>s'. j \<le> s' \<and> s' < t \<and> s' mod 60 = s mod 60 then Null else slotOf ws s)"
  using assms by (auto simp: slotOf_def jsRem_nonneg readSlot_clearSkipped)

section \<open>Well-formed objects\<close>

lemma keys_updateKey: "map fst (updateKey k v ob) = map fst ob"
  by (induction ob) auto

lemma keys_insertKey: "set (map fst (insertKey k v ob)) = insert k (set (map fst ob))"
  by (induction ob) auto

lemma distinct_insertKey:
  "k \<notin> set (map fst ob) \<Longrightarrow> distinct (map fst ob) \<Longrightarrow> distinct (map fst (insertKey k v ob))"
proof (induction ob)
  case Nil
  then show ?case by simp
next
  case (Cons p ps)
  have "set (map fst (insertKey k v ps)) = insert k (set (map fst ps))"
    by (rule keys_insertKey)
  with Cons show ?case by auto
qed

lemma wfObj_setProp: "wfObj ob \<Longrightarrow> wfObj (setProp ob k v)"
  by (simp add: wfObj_def setProp_def hasKey_def keys_updateKey distinct_insertKey)

lemma wfObj_initProp: "wfObj ob \<Longrightarrow> wfObj (initProp ob k v)"
  by (simp add: initProp_def wfObj_setProp)

lemma wfObj_addMetrics: "wfObj tgt \<Longrightarrow> wfObj (addMetrics tgt src)"
  by (induction src arbitrary: tgt) (simp_all add: addInto_def wfObj_setProp wfObj_initProp)

lemma wfObj_addInherited: "wfObj tgt \<Longrightarrow> wfObj (addInherited tgt ks)"
  by (induction ks arbitrary: tgt) (simp_all add: wfObj_initProp)

lemma wfObj_aggregateSamples: "wfObj tgt \<Longrightarrow> wfObj (aggregateSamples tgt w)"
  by (cases w) (simp_all add: wfObj_addMetrics wfObj_addInherited)

text \<open>The aggregation never replaces the prototype of its target.\<close>

lemma proto_addMetrics: "getProp (addMetrics tgt src) protoKey = getProp tgt protoKey"
  by (induction src arbitrary: tgt)
     (simp_all add: addInto_def getProp_setProp getProp_initProp)

lemma proto_addInherited:
  "protoKey \<notin> set ks \<Longrightarrow> getProp (addInherited tgt ks) protoKey = getProp tgt protoKey"
  by (induction ks arbitrary: tgt) (auto simp: getProp_initProp)

lemma proto_inheritedKeys: "protoKey \<notin> set (inheritedKeys src)"
  by (auto simp: inheritedKeys_def ownProps_def split: option.splits)

lemma proto_aggregateSamples:
  "getProp (aggregateSamples tgt w) protoKey = getProp tgt protoKey"
  by (cases w) (simp_all add: proto_addMetrics proto_addInherited proto_inheritedKeys)

lemma proto_mergeRange: "getProp (mergeRange i l ws agg) protoKey = getProp agg protoKey"
proof (induction i l ws agg rule: mergeRange.induct)
  case (1 i l ws agg)
  show ?case
  proof (cases "i \<le> l")
    case True
    then show ?thesis
      using "1.IH" [OF True]
      by (simp add: mergeRange.simps [of i] proto_aggregateSamples)
  next
    case False
    then show ?thesis by (simp add: mergeRange_stop)
  qed
qed

lemma proto_flushAggregates: "getProp (flushAggregates self now numSamples) protoKey = None"
  by (cases "toNumber (lastTimestamp self)")
     (simp_all add: flushAggregates_def proto_mergeRange getProp_empty)

lemma wfObj_mergeRange: "wfObj agg \<Longrightarrow> wfObj (mergeRange i l ws agg)"
proof (induction i l ws agg rule: mergeRange.induct)
  case (1 i l ws agg)
  show ?case
  proof (cases "i \<le> l")
    case True
    then show ?thesis
      using "1.IH" [OF True] "1.prems"
      by (simp add: mergeRange.simps [of i] wfObj_aggregateSamples)
  next
    case False
    then show ?thesis using "1.prems" by (simp add: mergeRange_stop)
  qed
qed

lemma wfObj_empty: "wfObj []"
  by (simp add: wfObj_def)

lemma wfObj_flushAggregates: "wfObj (flushAggregates self now numSamples)"
  by (cases "toNumber (lastTimestamp self)")
     (simp_all add: flushAggregates_def wfObj_mergeRange wfObj_empty)

lemma getProp_histograms:
  "wfObj ms \<Longrightarrow>
     getProp (histograms ms hs) m =
       (if m = protoKey then getProp hs m
        else case getProp ms m of Some smp \<Rightarrow> Some (histogramValue smp) | None \<Rightarrow> getProp hs m)"
proof (induction ms arbitrary: hs)
  case Nil
  then show ?case by (simp add: getProp_def)
next
  case (Cons p ps)
  from Cons.prems have ps: "wfObj ps" and p: "fst p \<notin> set (map fst ps)"
    by (simp_all add: wfObj_def)
  from p have none: "getProp ps (fst p) = None"
    by (simp add: getProp_def map_of_eq_None_iff)
  have cons: "getProp (p # ps) m = (if m = fst p then Some (snd p) else getProp ps m)"
    by (cases p) (simp add: getProp_def)
  show ?case
    using Cons.IH [OF ps, of "setProp hs (fst p) (histogramValue (snd p))"]
      Cons.IH [OF ps, of hs] none
    by (auto simp: cons getProp_setProp split: option.splits)
qed

section \<open>The end of a report\<close>

lemma onEnd_empty:
  "lines self = [] \<Longrightarrow>
     onEnd self t =
       self\<lparr>windows := writeSlot (clearGap (gapBase self t) t (windows self)) (jsRem t 60) Null,
            lastTimestamp := gapBase self t\<rparr>"
  by (simp add: onEnd_def gapBase_def Let_def)

lemma onEnd_lines:
  "lines self \<noteq> [] \<Longrightarrow>
     onEnd self t =
       self\<lparr>windows :=
              writeSlot (writeSlot (clearGap (gapBase self t) t (windows self)) (jsRem t 60) Null)
                (jsRem t 60) (Val (decodeLines (lines self) Null [])),
            lastTimestamp := Val t\<rparr>"
  by (simp add: onEnd_def gapBase_def Let_def)

lemma lines_onEnd: "lines (onEnd self t) = lines self"
  by (simp add: onEnd_def Let_def)

lemma flushAggregates_lines:
  "flushAggregates (self\<lparr>lines := ls\<rparr>) now numSamples = flushAggregates self now numSamples"
  by (cases "toNumber (lastTimestamp self)") (simp_all add: flushAggregates_def)

lemma length_windows_onEnd:
  "length (windows self) = 60 \<Longrightarrow> length (windows (onEnd self t)) = 60"
  by (cases "lines self = []")
     (simp_all add: onEnd_empty onEnd_lines length_writeSlot length_clearGap)

text \<open>
  C3. The claim: a report finalized with an empty metrics mapping leaves the slot
  cleared and does not advance \<open>lastTimestamp\<close>; only a non-empty mapping is stored.
  The code decides on the number of lines of the report, not on the mapping: the report
  with the one line \<open>=foo\<close> decodes to the empty mapping, and is stored, and advances
  \<open>lastTimestamp\<close>.
\<close>

theorem C3_counterexample:
  "decodeLines [''=foo''] Null [] = []
   \<and> lastTimestamp (onData fresh 100 ''>START\<newline>=foo\<newline>>END\<newline>'') = Val 100
   \<and> windows (onData fresh 100 ''>START\<newline>=foo\<newline>>END\<newline>'')
       = (replicate 60 Null)[40 := Val []]"
  by (simp add: fresh_def start_def handler_defs js_defs)

text \<open>
  C3, as the code has it. When a report is finalized with no line in its buffer, the
  slot of the second is left cleared, merging it changes no aggregate, and
  \<open>lastTimestamp\<close> keeps its value. When the buffer holds a line, the decoded mapping,
  empty or not, is stored in the slot and \<open>lastTimestamp\<close> becomes the second.
\<close>

theorem C3_empty_report_is_not_stored:
  assumes "length (windows self) = 60" and "0 \<le> t" and "lastTimestamp self \<noteq> Null"
  shows "(lines self = [] \<longrightarrow>
            slotOf (windows (onEnd self t)) t = Null
            \<and> aggregateSamples agg (slotOf (windows (onEnd self t)) t) = agg
            \<and> lastTimestamp (onEnd self t) = lastTimestamp self)
         \<and> (lines self \<noteq> [] \<longrightarrow>
            slotOf (windows (onEnd self t)) t = Val (decodeLines (lines self) Null [])
            \<and> lastTimestamp (onEnd self t) = Val t)"
  using assms
  by (simp add: onEnd_empty onEnd_lines gapBase_def slotOf_write_same length_writeSlot
        length_clearGap)

theorem C3_witness:
  "slotOf (windows (onEnd (fresh\<lparr>lastTimestamp := Val 98\<rparr>) 100)) 100 = Null
   \<and> lastTimestamp (onEnd (fresh\<lparr>lastTimestamp := Val 98\<rparr>) 100) = Val 98
   \<and> slotOf (windows (onEnd (fresh\<lparr>lines := [''=foo'']\<rparr>) 100)) 100 = Val []
   \<and> lastTimestamp (onEnd (fresh\<lparr>lines := [''=foo'']\<rparr>) 100) = Val 100"
  using C3_empty_report_is_not_stored [of "fresh\<lparr>lastTimestamp := Val 98\<rparr>" 100]
    C3_empty_report_is_not_stored [of "fresh\<lparr>lines := [''=foo'']\<rparr>" 100]
  by (simp add: fresh_def start_def js_defs)

section \<open>Gaps between reports\<close>

lemma readSlot_clearGap:
  assumes "length ws = 60" and "0 \<le> L" and "0 \<le> k" and "k < 60"
  shows "readSlot (clearGap (Val L) t ws) k =
           (if 60 \<le> t - L \<or> (\<exists>s. L < s \<and> s < t \<and> s mod 60 = k) then Null
            else readSlot ws k)"
proof (cases "60 \<le> t - L")
  case True
  then show ?thesis
    using assms by (simp add: clearGap_def readSlot_clearAll)
next
  case False
  have "(\<exists>s. L + 1 \<le> s \<and> s < t \<and> s mod 60 = k) \<longleftrightarrow> (\<exists>s. L < s \<and> s < t \<and> s mod 60 = k)"
    by (metis add1_zle_eq)
  then show ?thesis
    using assms False by (simp add: clearGap_def readSlot_clearSkipped)
qed

lemma readSlot_onEnd_other:
  assumes len: "length (windows self) = 60" and "0 \<le> t" and "0 \<le> k" and "k < 60"
    and "k \<noteq> t mod 60"
  shows "readSlot (windows (onEnd self t)) k =
           readSlot (clearGap (gapBase self t) t (windows self)) k"
proof -
  let ?c = "clearGap (gapBase self t) t (windows self)"
  have c: "length ?c = 60" using len by (rule length_clearGap)
  have e: "length (writeSlot ?c (t mod 60) Null) = 60"
    using length_writeSlot [OF c, of t Null] assms by (simp add: jsRem_nonneg)
  show ?thesis
    using assms c e
    by (cases "lines self = []")
       (simp_all add: onEnd_empty onEnd_lines jsRem_nonneg readSlot_writeSlot)
qed

lemma flush_across_gap:
  assumes len: "length (windows self) = 60" and t0: "0 \<le> t0" and g: "0 < g" "g < 60"
    and ls: "ls0 \<noteq> []" "ls1 \<noteq> []"
  shows "flushAggregates (onEnd ((onEnd (self\<lparr>lines := ls0\<rparr>) t0)\<lparr>lines := ls1\<rparr>) (t0 + g))
           now (now - t0)
         = aggregateSamples (aggregateSamples [] (Val (decodeLines ls0 Null [])))
             (Val (decodeLines ls1 Null []))"
proof -
  define st1 where "st1 = onEnd (self\<lparr>lines := ls0\<rparr>) t0"
  define st2 where "st2 = onEnd (st1\<lparr>lines := ls1\<rparr>) (t0 + g)"
  define cleared where "cleared = clearSkipped (t0 + 1) (t0 + g) (windows st1)"
  define m0 where "m0 = decodeLines ls0 Null []"
  define m1 where "m1 = decodeLines ls1 Null []"
  have len1: "length (windows st1) = 60"
    using len by (simp add: st1_def length_windows_onEnd)
  have last1: "lastTimestamp st1 = Val t0"
    using ls by (simp add: st1_def onEnd_lines)
  have s1: "slotOf (windows st1) t0 = Val m0"
    using ls len t0
    by (simp add: st1_def m0_def onEnd_lines slotOf_write_same length_writeSlot length_clearGap)
  have lenc: "length cleared = 60"
    using len1 by (simp add: cleared_def length_clearSkipped)
  have w2: "windows st2 =
              writeSlot (writeSlot cleared (jsRem (t0 + g) 60) Null) (jsRem (t0 + g) 60) (Val m1)"
    using ls g last1
    by (simp add: st2_def m1_def cleared_def onEnd_lines gapBase_def clearGap_def)
  have last2: "lastTimestamp st2 = Val (t0 + g)"
    using ls by (simp add: st2_def onEnd_lines)
  have r_end: "slotOf (windows st2) (t0 + g) = Val m1"
    using t0 g lenc by (simp add: w2 slotOf_write_same length_writeSlot)
  have r_other: "slotOf (windows st2) j = slotOf cleared j" if "t0 \<le> j" "j < t0 + g" for j
    using that t0 g lenc by (simp add: w2 slotOf_write_other length_writeSlot)
  have c0: "slotOf cleared t0 = Val m0"
  proof -
    have "\<not> (\<exists>s'. t0 + 1 \<le> s' \<and> s' < t0 + g \<and> s' mod 60 = t0 mod 60)"
    proof
      assume "\<exists>s'. t0 + 1 \<le> s' \<and> s' < t0 + g \<and> s' mod 60 = t0 mod 60"
      then obtain s' where s': "t0 + 1 \<le> s'" "s' < t0 + g" "s' mod 60 = t0 mod 60" by blast
      have "s' mod 60 \<noteq> t0 mod 60"
        using s' g by (intro mod_60_differ) simp_all
      with s' show False by simp
    qed
    then show ?thesis
      using slotOf_clearSkipped [OF len1, of "t0 + 1" t0 "t0 + g"] t0 s1
      by (simp add: cleared_def)
  qed
  have cj: "slotOf cleared j = Null" if "t0 < j" "j < t0 + g" for j
  proof -
    have "\<exists>s'. t0 + 1 \<le> s' \<and> s' < t0 + g \<and> s' mod 60 = j mod 60"
      using that by (intro exI [of _ j]) simp
    then show ?thesis
      using slotOf_clearSkipped [OF len1, of "t0 + 1" j "t0 + g"] t0 that
      by (simp add: cleared_def)
  qed
  have first: "slotOf (windows st2) t0 = Val m0"
    using r_other [of t0] g c0 by simp
  have middle: "noData (slotOf (windows st2) j)" if "t0 + 1 \<le> j" "j \<le> t0 + g - 1" for j
    using r_other [of j] cj [of j] that by (simp add: noData_def)
  have "mergeRange t0 (t0 + g) (windows st2) []
          = mergeRange (t0 + 1) (t0 + g) (windows st2) (aggregateSamples [] (Val m0))"
    using g first by (simp add: mergeRange_unfold)
  also have "\<dots> = aggregateSamples
                      (mergeRange (t0 + 1) (t0 + g - 1) (windows st2) (aggregateSamples [] (Val m0)))
                      (slotOf (windows st2) (t0 + g))"
    using mergeRange_last [of "t0 + 1" "t0 + g - 1"] g by simp
  also have "mergeRange (t0 + 1) (t0 + g - 1) (windows st2) (aggregateSamples [] (Val m0))
               = aggregateSamples [] (Val m0)"
    by (rule mergeRange_noData) (rule middle)
  finally have "mergeRange t0 (t0 + g) (windows st2) []
                  = aggregateSamples (aggregateSamples [] (Val m0)) (Val m1)"
    using r_end by simp
  then show ?thesis
    using last2 by (simp add: flushAggregates_def st2_def st1_def m0_def m1_def)
qed

text \<open>
  C2. When a report is finalized at second \<open>t\<close> and the last recorded second is
  \<open>L\<close>: if \<open>t - L\<close> is 60 or more, every slot of the ring is cleared; otherwise
  the slots of the seconds strictly between \<open>L\<close> and \<open>t\<close> are cleared and no other
  (the slot of \<open>t\<close> itself is the one the report is written to). So, after a report
  at \<open>t0\<close> and the next one \<open>g\<close> seconds later, with \<open>g\<close> below 60, a flush
  that spans \<open>t0\<close> to \<open>t0 + g\<close> merges the two recorded windows and nothing else.
\<close>

theorem C2_gap_slots_cleared:
  assumes "length (windows self) = 60" and "lastTimestamp self = Val L" and "0 \<le> L"
    and "0 \<le> t" and "0 \<le> t0" and "0 < g" and "g < 60" and "ls0 \<noteq> []" and "ls1 \<noteq> []"
  shows "(\<forall>k. 0 \<le> k \<and> k < 60 \<and> k \<noteq> t mod 60 \<longrightarrow>
            readSlot (windows (onEnd self t)) k =
              (if 60 \<le> t - L \<or> (\<exists>s. L < s \<and> s < t \<and> s mod 60 = k) then Null
               else readSlot (windows self) k))
         \<and> flushAggregates
               (onEnd ((onEnd (self\<lparr>lines := ls0\<rparr>) t0)\<lparr>lines := ls1\<rparr>) (t0 + g))
               now (now - t0)
             = aggregateSamples (aggregateSamples [] (Val (decodeLines ls0 Null [])))
                 (Val (decodeLines ls1 Null []))"
proof -
  have "gapBase self t = Val L"
    using assms by (simp add: gapBase_def)
  then have "readSlot (windows (onEnd self t)) k =
               (if 60 \<le> t - L \<or> (\<exists>s. L < s \<and> s < t \<and> s mod 60 = k) then Null
                else readSlot (windows self) k)"
    if "0 \<le> k" "k < 60" "k \<noteq> t mod 60" for k
    using that assms by (simp add: readSlot_onEnd_other readSlot_clearGap)
  moreover note flush_across_gap [of self t0 g ls0 ls1 now]
  ultimately show ?thesis using assms by simp
qed

theorem C2_witness:
  "readSlot (windows (onEnd stale 104)) 42 = Null
   \<and> readSlot (windows (onEnd stale 104)) 45 = Val [(''old'', [(''1'', Num 1)])]
   \<and> flushAggregates
         (onEnd ((onEnd (stale\<lparr>lines := [''=read'', ''10|2'']\<rparr>) 100)
                   \<lparr>lines := [''=read'', ''10|5'', ''20|1'']\<rparr>) (100 + 3))
         103 (103 - 100)
       = [(''read'', [(''10'', Num 7), (''20'', Num 1)])]"
proof -
  have all: "(\<forall>k. 0 \<le> k \<and> k < 60 \<and> k \<noteq> 104 mod 60 \<longrightarrow>
            readSlot (windows (onEnd stale 104)) k =
              (if (60::int) \<le> 104 - 100 \<or> (\<exists>s. 100 < s \<and> s < 104 \<and> s mod 60 = k) then Null
               else readSlot (windows stale) k))
         \<and> flushAggregates
               (onEnd ((onEnd (stale\<lparr>lines := [''=read'', ''10|2'']\<rparr>) 100)
                         \<lparr>lines := [''=read'', ''10|5'', ''20|1'']\<rparr>) (100 + 3))
               103 (103 - 100)
             = aggregateSamples (aggregateSamples [] (Val (decodeLines [''=read'', ''10|2''] Null [])))
                 (Val (decodeLines [''=read'', ''10|5'', ''20|1''] Null []))"
    by (rule C2_gap_slots_cleared [where self = stale and L = 100 and t = 104 and ?t0.0 = 100
            and g = 3 and now = 103])
       (simp_all add: stale_def fresh_def start_def)
  have between: "\<exists>s::int. 100 < s \<and> s < 104 \<and> s mod 60 = 42"
    by (intro exI [of _ 102]) simp
  have outside: "\<not> (\<exists>s::int. 100 < s \<and> s < 104 \<and> s mod 60 = 45)"
  proof
    assume "\<exists>s::int. 100 < s \<and> s < 104 \<and> s mod 60 = 45"
    then obtain s :: int where s: "100 < s" "s < 104" "s mod 60 = 45" by blast
    then have "s = 101 \<or> s = 102 \<or> s = 103" by arith
    with s show False by auto
  qed
  note slots = all [THEN conjunct1, rule_format]
  have "readSlot (windows (onEnd stale 104)) 42 = Null"
    using slots [of 42] between by auto
  moreover have "readSlot (windows (onEnd stale 104)) 45 = readSlot (windows stale) 45"
    using slots [of 45] outside by auto
  moreover have "readSlot (windows stale) 45 = Val [(''old'', [(''1'', Num 1)])]"
    by (simp add: stale_def fresh_def start_def readSlot_def)
  moreover have "aggregateSamples (aggregateSamples [] (Val (decodeLines [''=read'', ''10|2''] Null [])))
                   (Val (decodeLines [''=read'', ''10|5'', ''20|1''] Null []))
                 = [(''read'', [(''10'', Num 7), (''20'', Num 1)])]"
    by (simp add: js_defs)
  ultimately show ?thesis using all [THEN conjunct2] by simp
qed

section \<open>The value that flush returns\<close>

lemma decode_readReport:
  "decodeLines [''=read'', ''10|2'', ''20|1''] Null [] = [(''read'', [(''10'', Num 2), (''20'', Num 1)])]"
  by (simp add: js_defs)

lemma histograms_readReport:
  "histograms (aggregateSamples [] (Val [(''read'', [(''10'', Num 2), (''20'', Num 1)])])) []
     = [(''read'', [(''_type'', JStr ''n''), (''_value'', JArr [''H[10]=2'', ''H[20]=1''])])]"
  by (simp add: js_defs showNat.simps)

lemma onData_readReport:
  "onData (start d) T readReport =
     (onEnd ((start d)\<lparr>lines := [''=read'', ''10|2'', ''20|1'']\<rparr>) T)
       \<lparr>lines := [''=read'', ''10|2'', ''20|1'', []]\<rparr>"
  by (simp add: readReport_def onData_def onLine_def start_def split_def normalize_def
        isSpace_def lines_onEnd)

lemma flush_after_one_report:
  assumes ws: "windows self = replicate 60 Null" and undef: "lastTimestamp self = Undefined"
    and ls: "lines self \<noteq> []" and T: "0 \<le> T" "T < T'" "T' \<le> T + 60"
  shows "flushAggregates (onEnd self T) T' 60
           = aggregateSamples [] (Val (decodeLines (lines self) Null []))"
proof -
  define m where "m = decodeLines (lines self) Null []"
  define w where "w = windows (onEnd self T)"
  have w: "w = writeSlot (writeSlot (replicate 60 Null) (jsRem T 60) Null) (jsRem T 60) (Val m)"
    using ls ws undef by (simp add: w_def m_def onEnd_lines gapBase_def clearGap_def)
  have last: "lastTimestamp (onEnd self T) = Val T"
    using ls by (simp add: onEnd_lines)
  have here: "slotOf w T = Val m"
    using T by (simp add: w slotOf_write_same length_writeSlot)
  have before: "noData (slotOf w j)" if "T' - 60 \<le> j" "j \<le> T - 1" for j
  proof -
    have "slotOf w j = slotOf (replicate 60 Null) j"
      using that T by (simp add: w slotOf_write_other length_writeSlot)
    then show ?thesis by (simp add: slotOf_replicate_Null)
  qed
  have "mergeRange (T' - 60) T w [] = aggregateSamples (mergeRange (T' - 60) (T - 1) w []) (slotOf w T)"
    using mergeRange_last [of "T' - 60" "T - 1" w "[]"] T by simp
  also have "mergeRange (T' - 60) (T - 1) w [] = []"
    by (rule mergeRange_noData) (rule before)
  finally show ?thesis
    using last here by (simp add: flushAggregates_def w_def m_def)
qed

text \<open>
  C8. The claim: flush returns, for each metric, a value with the keys \<open>type\<close>, holding
  \<open>histogram\<close>, and \<open>buckets\<close>; after the report \<open>>START\<close>, \<open>=read\<close>,
  \<open>10|2\<close>, \<open>20|1\<close>, \<open>>END\<close> at second \<open>T\<close>, \<open>flush(60)\<close> at any
  time from \<open>T\<close> on returns the buckets \<open>H[10]=2\<close> and \<open>H[20]=1\<close> for
  \<open>read\<close>. The code names the keys \<open>_type\<close> and \<open>_value\<close> and the type is the
  string \<open>n\<close>. At the second of the report itself \<open>flush(60)\<close> walks 61 seconds,
  meets the slot of the report twice, and returns the counts doubled.
\<close>

theorem C8_counterexample:
  "flush (onData fresh 100 readReport) 101 60
     \<noteq> [(''read'', [(''type'', JStr ''histogram''),
                     (''buckets'', JArr [''H[10]=2'', ''H[20]=1''])])]
   \<and> flush (onData fresh 100 readReport) 100 60
     = [(''read'', [(''_type'', JStr ''n''), (''_value'', JArr [''H[10]=4'', ''H[20]=2''])])]"
  by (simp add: fresh_def start_def readReport_def handler_defs flush_defs js_defs)

text \<open>
  C8, as the code has it. The value that flush returns for a metric has the key
  \<open>_type\<close> with the string \<open>n\<close> and the key \<open>_value\<close> with the list of bucket
  entries of the merged distribution, and flush returns a value for exactly the merged
  metrics. After the report above at second \<open>T\<close> on a new aggregator, \<open>flush(60)\<close>
  at a time after \<open>T\<close> and up to \<open>T + 60\<close> returns the entries \<open>H[10]=2\<close> and
  \<open>H[20]=1\<close> for \<open>read\<close>, and nothing else.
\<close>

theorem C8_flush_histogram_value:
  assumes "Dtrace (Val scr) = Inr d" and "0 \<le> T" and "T < T'" and "T' \<le> T + 60"
  shows "getProp (flush self now numSamples) metric
           = map_option (\<lambda>smp. [(''_type'', JStr ''n''), (''_value'', JArr (makeHistogram smp))])
               (getProp (flushAggregates self now numSamples) metric)
         \<and> flush (onData (start d) T readReport) T' 60
           = [(''read'', [(''_type'', JStr ''n''), (''_value'', JArr [''H[10]=2'', ''H[20]=1''])])]"
proof -
  have shape: "getProp (flush self now numSamples) metric
           = map_option (\<lambda>smp. [(''_type'', JStr ''n''), (''_value'', JArr (makeHistogram smp))])
               (getProp (flushAggregates self now numSamples) metric)"
  proof (cases "metric = protoKey")
    case True
    then show ?thesis
      by (simp add: flush_def getProp_histograms wfObj_flushAggregates proto_flushAggregates
            getProp_empty)
  next
    case False
    then show ?thesis
      by (cases "getProp (flushAggregates self now numSamples) metric")
         (simp_all add: flush_def getProp_histograms wfObj_flushAggregates histogramValue_def
            getProp_empty)
  qed
  let ?s = "(start d)\<lparr>lines := [''=read'', ''10|2'', ''20|1'']\<rparr>"
  from assms(1) have d: "windows d = replicate 60 Null" "lastTimestamp d = Undefined"
    by (auto simp: Dtrace_def)
  have l: "lines ?s = [''=read'', ''10|2'', ''20|1'']"
    by simp
  have "flushAggregates (onData (start d) T readReport) T' 60 = flushAggregates (onEnd ?s T) T' 60"
    by (simp only: onData_readReport flushAggregates_lines)
  also have "\<dots> = aggregateSamples [] (Val (decodeLines (lines ?s) Null []))"
    using assms d by (intro flush_after_one_report) (simp_all add: start_def)
  also have "\<dots> = aggregateSamples [] (Val [(''read'', [(''10'', Num 2), (''20'', Num 1)])])"
    by (simp only: l decode_readReport)
  finally have "flushAggregates (onData (start d) T readReport) T' 60
               = aggregateSamples [] (Val [(''read'', [(''10'', Num 2), (''20'', Num 1)])])" .
  then have "flush (onData (start d) T readReport) T' 60
           = [(''read'', [(''_type'', JStr ''n''), (''_value'', JArr [''H[10]=2'', ''H[20]=1''])])]"
    by (simp only: flush_def histograms_readReport)
  with shape show ?thesis by (rule conjI)
qed

theorem C8_witness:
  "Dtrace (Val ''syscall:::entry'')
     = Inr \<lparr>script = ''syscall:::entry'', inline = True, windows = replicate 60 Null,
            lastTimestamp = Undefined\<rparr>
   \<and> flush (onData (start \<lparr>script = ''syscall:::entry'', inline = True,
                          windows = replicate 60 Null, lastTimestamp = Undefined\<rparr>)
            100 readReport) 160 60
     = [(''read'', [(''_type'', JStr ''n''), (''_value'', JArr [''H[10]=2'', ''H[20]=1''])])]"
proof -
  have c: "Dtrace (Val ''syscall:::entry'')
     = Inr \<lparr>script = ''syscall:::entry'', inline = True, windows = replicate 60 Null,
            lastTimestamp = Undefined\<rparr>"
    by (simp add: Dtrace_def)
  show ?thesis
    using c C8_flush_histogram_value [OF c, where T = 100 and T' = 160 and self = fresh
        and now = 0 and numSamples = 0 and metric = "''read''"]
    by simp
qed

section \<open>Sums of windows\<close>

lemma plus_js_zero: "plus_js (Num 0) c = c"
  by (cases c) simp_all

lemma getProp_Cons: "getProp (p # ps) k = (if k = fst p then Some (snd p) else getProp ps k)"
  by (cases p) (simp add: getProp_def)

lemma getProp_absent: "k \<notin> set (map fst ob) \<Longrightarrow> getProp ob k = None"
  by (simp add: getProp_def map_of_eq_None_iff)

lemma getProp_addTo:
  "k \<noteq> protoKey \<Longrightarrow>
     getProp (addTo (initProp tgt k (Num 0)) k c) l =
       (if l = k then addCount (getProp tgt k) (Some c) else getProp tgt l)"
  by (cases "getProp tgt k") (simp_all add: addTo_def getProp_setProp getProp_initProp plus_js_zero)

lemma getProp_addSamples:
  "wfObj src \<Longrightarrow> l \<noteq> protoKey \<Longrightarrow>
     getProp (addSamples tgt src) l = addCount (getProp tgt l) (getProp src l)"
proof (induction src arbitrary: tgt)
  case Nil
  then show ?case by (simp add: getProp_empty)
next
  case (Cons p ps)
  from Cons.prems have ps: "wfObj ps" and p: "fst p \<notin> set (map fst ps)"
    by (simp_all add: wfObj_def)
  have rest: "getProp ps (fst p) = None"
    using p by (rule getProp_absent)
  show ?case
  proof (cases "fst p = protoKey")
    case True
    then show ?thesis
      using Cons.IH [OF ps Cons.prems(2), of tgt] Cons.prems(2) by (simp add: getProp_Cons)
  next
    case False
    then show ?thesis
      using Cons.IH [OF ps Cons.prems(2), of "addTo (initProp tgt (fst p) (Num 0)) (fst p) (snd p)"]
        rest
      by (simp add: getProp_addTo getProp_Cons)
  qed
qed

lemma wfMetrics_Cons:
  "wfMetrics (p # ps) \<longleftrightarrow> fst p \<notin> set (map fst ps) \<and> wfObj (snd p) \<and> wfMetrics ps"
  by (auto simp: wfMetrics_def wfObj_def)

lemma bucket_proto: "m = protoKey \<or> l = protoKey \<Longrightarrow> bucket ms m l = None"
  by (auto simp: bucket_def)

lemma bucket_own:
  "m \<noteq> protoKey \<Longrightarrow> l \<noteq> protoKey \<Longrightarrow>
     bucket ms m l = (case getProp ms m of None \<Rightarrow> None | Some smp \<Rightarrow> getProp smp l)"
  by (simp add: bucket_def)

lemma bucket_Cons:
  "m \<noteq> protoKey \<Longrightarrow> l \<noteq> protoKey \<Longrightarrow>
     bucket (p # ps) m l = (if m = fst p then getProp (snd p) l else bucket ps m l)"
  by (simp add: bucket_own getProp_Cons)

lemma bucket_absent: "m \<notin> set (map fst ms) \<Longrightarrow> bucket ms m l = None"
  by (simp add: bucket_def getProp_absent)

lemma bucket_addInto:
  "wfObj smp \<Longrightarrow> k \<noteq> protoKey \<Longrightarrow> m \<noteq> protoKey \<Longrightarrow> l \<noteq> protoKey \<Longrightarrow>
     bucket (addInto (initProp tgt k []) k smp) m l =
       (if m = k then addCount (bucket tgt k l) (getProp smp l) else bucket tgt m l)"
  by (cases "getProp tgt k")
     (simp_all add: bucket_own addInto_def getProp_setProp getProp_initProp getProp_addSamples
        getProp_empty)

lemma bucket_addMetrics:
  "wfMetrics src \<Longrightarrow>
     bucket (addMetrics tgt src) m l = addCount (bucket tgt m l) (bucket src m l)"
proof (cases "m = protoKey \<or> l = protoKey")
  case True
  then show ?thesis by (simp add: bucket_proto)
next
  case False
  then have m: "m \<noteq> protoKey" and l: "l \<noteq> protoKey" by simp_all
  assume "wfMetrics src"
  then show ?thesis
  proof (induction src arbitrary: tgt)
    case Nil
    then show ?case by (simp add: bucket_def getProp_empty)
  next
    case (Cons p ps)
    from Cons.prems have ps: "wfMetrics ps" and p: "fst p \<notin> set (map fst ps)"
      and v: "wfObj (snd p)"
      by (simp_all add: wfMetrics_Cons)
    have rest: "bucket ps (fst p) l = None"
      using p by (rule bucket_absent)
    show ?case
    proof (cases "fst p = protoKey")
      case True
      then show ?thesis
        using Cons.IH [OF ps, of tgt] m l by (simp add: bucket_Cons)
    next
      case False
      then show ?thesis
        using Cons.IH [OF ps, of "addInto (initProp tgt (fst p) []) (fst p) (snd p)"] rest v m l
        by (simp add: bucket_addInto bucket_Cons)
    qed
  qed
qed

lemma bucket_initProp: "bucket (initProp tgt k []) m l = bucket tgt m l"
  by (auto simp: bucket_def getProp_initProp getProp_empty split: option.splits)

lemma bucket_addInherited: "bucket (addInherited tgt ks) m l = bucket tgt m l"
  by (induction ks arbitrary: tgt) (simp_all add: bucket_initProp)

lemma bucket_merge_windows:
  "list_all wfMetrics wins \<Longrightarrow>
     bucket (foldl aggregateSamples tgt (map Val wins)) m l =
       foldl addCount (bucket tgt m l) (map (\<lambda>w. bucket w m l) wins)"
  by (induction wins arbitrary: tgt) (simp_all add: bucket_addMetrics bucket_addInherited)

lemma set_updateKey: "set (updateKey k v ob) \<subseteq> insert (k, v) (set ob)"
  by (induction ob) auto

lemma set_insertKey: "set (insertKey k v ob) = insert (k, v) (set ob)"
  by (induction ob) auto

lemma set_setProp: "set (setProp ob k v) \<subseteq> insert (k, v) (set ob)"
  using set_updateKey [of k v ob] by (simp add: setProp_def set_insertKey)

lemma wfObj_setNum: "wfObj ob \<Longrightarrow> wfObj (setNum ob k c)"
  by (simp add: setNum_def wfObj_setProp)

lemma wfMetrics_setProp:
  assumes "wfMetrics ms" and "wfObj v"
  shows "wfMetrics (setProp ms k v)"
proof -
  have "wfObj (snd p)" if "p \<in> set (setProp ms k v)" for p
  proof -
    from that set_setProp [of ms k v] have "p = (k, v) \<or> p \<in> set ms" by auto
    with assms show ?thesis by (auto simp: wfMetrics_def list_all_iff)
  qed
  with assms show ?thesis
    by (simp add: wfMetrics_def wfObj_setProp list_all_iff)
qed

lemma wfMetrics_getProp: "wfMetrics ms \<Longrightarrow> getProp ms k = Some smp \<Longrightarrow> wfObj smp"
  by (auto simp: wfMetrics_def getProp_def list_all_iff dest!: map_of_SomeD)

lemma wfMetrics_storeSample:
  assumes "wfMetrics ms"
  shows "wfMetrics (storeSample (initProp ms k []) k lat c)"
proof -
  have i: "wfMetrics (initProp ms k [])"
    using assms by (simp add: initProp_def wfMetrics_setProp wfObj_empty)
  have "getProp (initProp ms k []) k \<noteq> None"
    by (auto simp: getProp_initProp)
  then obtain smp where smp: "getProp (initProp ms k []) k = Some smp"
    by auto
  then have "wfObj smp" using i by (rule wfMetrics_getProp [rotated])
  then have "wfObj (setNum smp lat c)" by (rule wfObj_setNum)
  with i smp show ?thesis by (simp add: storeSample_def wfMetrics_setProp)
qed

lemma wfMetrics_decodeLines: "wfMetrics ms \<Longrightarrow> wfMetrics (decodeLines ls key ms)"
  by (induction ls arbitrary: key ms) (simp_all add: wfMetrics_storeSample split: option.splits)

lemma wfMetrics_decoded: "wfMetrics (decodeLines ls Null [])"
  by (rule wfMetrics_decodeLines) (simp add: wfMetrics_def wfObj_def)

section \<open>Reports at consecutive seconds\<close>

lemma recordAll_snoc:
  "recordAll self t (rs @ [r]) = onEnd ((recordAll self t rs)\<lparr>lines := r\<rparr>) (t + int (length rs))"
  by (induction rs arbitrary: self t) (simp_all add: add.assoc)

lemma mergeRange_foldl:
  "mergeRange i l ws agg = foldl aggregateSamples agg (map (slotOf ws) [i..l])"
proof (induction i l ws agg rule: mergeRange.induct)
  case (1 i l ws agg)
  show ?case
  proof (cases "i \<le> l")
    case True
    then show ?thesis
      using "1.IH" [OF True] by (simp add: mergeRange_unfold upto_rec1 [of i l] slotOf_def)
  next
    case False
    then show ?thesis by (simp add: mergeRange_stop)
  qed
qed

lemma foldl_noData:
  "list_all noData xs \<Longrightarrow> foldl aggregateSamples agg xs = agg"
  by (induction xs arbitrary: agg) (simp_all add: aggregateSamples_noData)

lemma ring_after_reports:
  assumes ws: "windows self = replicate 60 Null" and undef: "lastTimestamp self = Undefined"
    and t0: "0 \<le> t0"
  shows "list_all (\<lambda>ls. ls \<noteq> []) rs \<Longrightarrow>
         length (windows (recordAll self t0 rs)) = 60
         \<and> lastTimestamp (recordAll self t0 rs)
             = (if rs = [] then Undefined else Val (t0 + int (length rs) - 1))
         \<and> (\<forall>j. t0 + int (length rs) - 61 < j \<and> j < t0 + int (length rs) \<longrightarrow>
               (t0 \<le> j \<longrightarrow> slotOf (windows (recordAll self t0 rs)) j
                             = Val (decodeLines (rs ! nat (j - t0)) Null []))
               \<and> (j < t0 \<longrightarrow> noData (slotOf (windows (recordAll self t0 rs)) j)))"
proof (induction rs rule: rev_induct)
  case Nil
  then show ?case using ws undef by (simp add: slotOf_replicate_Null)
next
  case (snoc r rs)
  define st where "st = recordAll self t0 rs"
  define t where "t = t0 + int (length rs)"
  define m where "m = decodeLines r Null []"
  from snoc.prems have r: "r \<noteq> []" and rs: "list_all (\<lambda>ls. ls \<noteq> []) rs"
    by simp_all
  note ih = snoc.IH [OF rs, folded st_def]
  from ih have len: "length (windows st) = 60" by simp
  have t: "0 \<le> t" using t0 by (simp add: t_def)
  have gap: "clearGap (gapBase (st\<lparr>lines := r\<rparr>) t) t (windows st) = windows st"
  proof (cases "rs = []")
    case True
    with ih show ?thesis by (simp add: gapBase_def clearGap_def)
  next
    case False
    with ih have "lastTimestamp st = Val (t - 1)" by (simp add: t_def)
    then show ?thesis
      by (simp add: gapBase_def clearGap_def clearSkipped.simps [of t])
  qed
  have new: "recordAll self t0 (rs @ [r]) = onEnd (st\<lparr>lines := r\<rparr>) t"
    by (simp add: recordAll_snoc st_def t_def)
  have w: "windows (onEnd (st\<lparr>lines := r\<rparr>) t)
             = writeSlot (writeSlot (windows st) (jsRem t 60) Null) (jsRem t 60) (Val m)"
    using r gap by (simp add: onEnd_lines m_def)
  have last: "lastTimestamp (onEnd (st\<lparr>lines := r\<rparr>) t) = Val t"
    using r by (simp add: onEnd_lines)
  have here: "slotOf (windows (onEnd (st\<lparr>lines := r\<rparr>) t)) t = Val m"
    using t len by (simp add: w slotOf_write_same length_writeSlot)
  have other: "slotOf (windows (onEnd (st\<lparr>lines := r\<rparr>) t)) j = slotOf (windows st) j"
    if "t - 60 < j" "j < t" for j
    using that t len by (simp add: w slotOf_write_other length_writeSlot)
  have slots: "(t0 \<le> j \<longrightarrow> slotOf (windows (onEnd (st\<lparr>lines := r\<rparr>) t)) j
                             = Val (decodeLines ((rs @ [r]) ! nat (j - t0)) Null []))
               \<and> (j < t0 \<longrightarrow> noData (slotOf (windows (onEnd (st\<lparr>lines := r\<rparr>) t)) j))"
    if j: "t - 60 < j" "j < t + 1" for j
  proof (cases "j = t")
    case True
    have "(rs @ [r]) ! nat (t - t0) = r"
      by (simp add: t_def)
    with True here t0 show ?thesis by (simp add: m_def t_def)
  next
    case False
    with j have jt: "j < t" by simp
    from ih j jt
    have old: "(t0 \<le> j \<longrightarrow> slotOf (windows st) j = Val (decodeLines (rs ! nat (j - t0)) Null []))
               \<and> (j < t0 \<longrightarrow> noData (slotOf (windows st) j))"
      by (simp add: t_def)
    have "(rs @ [r]) ! nat (j - t0) = rs ! nat (j - t0)" if "t0 \<le> j"
      using that jt by (simp add: nth_append t_def nat_less_iff)
    with old other [OF j(1) jt] show ?thesis by simp
  qed
  have "length (windows (onEnd (st\<lparr>lines := r\<rparr>) t)) = 60"
    using len by (simp add: length_windows_onEnd)
  moreover have "t0 + int (length (rs @ [r])) - 1 = t" "t0 + int (length (rs @ [r])) - 61 = t - 60"
    "t0 + int (length (rs @ [r])) = t + 1"
    by (simp_all add: t_def)
  ultimately show ?case
    using last slots unfolding new by simp
qed

lemma merge_after_reports:
  assumes ws: "windows self = replicate 60 Null" and undef: "lastTimestamp self = Undefined"
    and ne: "rs \<noteq> []" and lines: "list_all (\<lambda>ls. ls \<noteq> []) rs"
    and t0: "0 \<le> t0" and n: "0 \<le> n" "n < 60"
  shows "lastTimestamp (recordAll self t0 rs) = Val (t0 + int (length rs) - 1)"
    and "mergeRange (t0 + int (length rs) - 1 - n) (t0 + int (length rs) - 1)
           (windows (recordAll self t0 rs)) []
           = foldl aggregateSamples []
               (map (\<lambda>ls. Val (decodeLines ls Null [])) (lastN (nat n + 1) rs))"
proof -
  define st where "st = recordAll self t0 rs"
  define k where "k = length rs"
  define now where "now = t0 + int k - 1"
  define d where "d = k - (nat n + 1)"
  define a where "a = t0 + int d"
  note inv = ring_after_reports [OF ws undef t0 lines, folded st_def k_def]
  from ne have k: "0 < k" by (simp add: k_def)
  from inv ne have last: "lastTimestamp st = Val now"
    by (simp add: now_def)
  then show "lastTimestamp (recordAll self t0 rs) = Val (t0 + int (length rs) - 1)"
    by (simp add: st_def now_def k_def)
  have inv_val: "slotOf (windows st) j = Val (decodeLines (rs ! nat (j - t0)) Null [])"
    if "t0 \<le> j" "j \<le> now" "now - 60 < j" for j
    using inv that by (simp add: now_def)
  have inv_no: "noData (slotOf (windows st) j)" if "j < t0" "now - 60 < j" for j
    using inv that k by (simp add: now_def)
  have a_low: "now - n \<le> a" and a_high: "a \<le> now"
    using k n by (simp_all add: a_def d_def now_def)
  have a_cases: "a = t0 \<or> a = now - n"
    using k n by (auto simp: a_def d_def now_def)
  have prefix: "list_all noData (map (slotOf (windows st)) [now - n..a - 1])"
  proof -
    have "noData (slotOf (windows st) j)" if "now - n \<le> j" "j \<le> a - 1" for j
    proof -
      from that a_cases have "j < t0" by auto
      moreover from that n have "now - 60 < j" by simp
      ultimately show ?thesis by (rule inv_no)
    qed
    then show ?thesis by (simp add: list_all_iff)
  qed
  have suffix: "map (slotOf (windows st)) [a..now]
                  = map (\<lambda>ls. Val (decodeLines ls Null [])) (drop d rs)"
  proof (rule nth_equalityI)
    show "length (map (slotOf (windows st)) [a..now])
            = length (map (\<lambda>ls. Val (decodeLines ls Null [])) (drop d rs))"
      using k by (simp add: a_def now_def k_def d_def)
  next
    fix i
    assume "i < length (map (slotOf (windows st)) [a..now])"
    then have i: "a + int i \<le> now" by simp
    then have di: "d + i < length rs"
      by (simp add: a_def now_def k_def)
    have "slotOf (windows st) (a + int i) = Val (decodeLines (rs ! nat (a + int i - t0)) Null [])"
      using i a_low n by (intro inv_val) (simp_all add: a_def)
    moreover have "nat (a + int i - t0) = d + i"
      by (simp add: a_def)
    ultimately show "map (slotOf (windows st)) [a..now] ! i
                       = map (\<lambda>ls. Val (decodeLines ls Null [])) (drop d rs) ! i"
      using i di by simp
  qed
  have "[now - n..now] = [now - n..a - 1] @ [a..now]"
    using a_low a_high by (rule upto_split1)
  then have "mergeRange (now - n) now (windows st) []
               = foldl aggregateSamples [] (map (\<lambda>ls. Val (decodeLines ls Null [])) (drop d rs))"
    using prefix by (simp add: mergeRange_foldl foldl_noData suffix)
  then show "mergeRange (t0 + int (length rs) - 1 - n) (t0 + int (length rs) - 1)
           (windows (recordAll self t0 rs)) []
           = foldl aggregateSamples []
               (map (\<lambda>ls. Val (decodeLines ls Null [])) (lastN (nat n + 1) rs))"
    by (simp add: lastN_def st_def now_def k_def d_def)
qed

text \<open>
  C1. The claim: after reports with non-empty metrics at consecutive seconds,
  \<open>flush(N)\<close> at once returns the sum of the last \<open>min(N, number of reports)\<close>
  windows, and no slot is counted twice. The loop of flush runs from \<open>now - N\<close> to
  \<open>lastTimestamp\<close> with both ends included. In the second of the last report that is
  \<open>N + 1\<close> seconds: after three reports of one observation each, \<open>flush(1)\<close>
  returns 2, not 1. With \<open>N = 60\<close> the 61 seconds meet the slot of the last report
  twice: \<open>flush(60)\<close> returns 4 for the three reports.
\<close>

theorem C1_counterexample:
  "bucket (flushAggregates (recordAll fresh 100 [[''=read'', ''10|1''], [''=read'', ''10|1''],
             [''=read'', ''10|1'']]) 102 1) ''read'' ''10'' = Some (Num 2)
   \<and> sumWindows (lastN (min 1 3) (map (\<lambda>ls. decodeLines ls Null [])
         [[''=read'', ''10|1''], [''=read'', ''10|1''], [''=read'', ''10|1'']])) ''read'' ''10''
       = Some (Num 1)
   \<and> bucket (flushAggregates (recordAll fresh 100 [[''=read'', ''10|1''], [''=read'', ''10|1''],
             [''=read'', ''10|1'']]) 102 60) ''read'' ''10'' = Some (Num 4)"
  by (simp add: fresh_def start_def handler_defs flush_defs js_defs bucket_def sumWindows_def
        lastN_def clearSkipped.simps)

text \<open>
  C1, as the code has it. After reports with non-empty metrics at consecutive seconds
  on a new aggregator, the last of them at second \<open>lastTs\<close>, a \<open>flush(N)\<close> at a
  second \<open>now\<close> not before \<open>lastTs\<close> merges the slots of the seconds \<open>now - N\<close>
  to \<open>lastTs\<close>. When these are at most 60 seconds, every slot is merged once: the
  result is the merge of the windows recorded in these seconds, the last
  \<open>N + 1 - (now - lastTs)\<close> windows or all of them if there are fewer, and every
  bucket of it holds the sum of the counts that these windows have for it. One second
  after the last report these are the last \<open>min(N, number of reports)\<close> windows.
\<close>

theorem C1_flush_merges_last_windows:
  assumes "windows self = replicate 60 Null" and "lastTimestamp self = Undefined"
    and "rs \<noteq> []" and "list_all (\<lambda>ls. decodeLines ls Null [] \<noteq> []) rs"
    and "0 \<le> t0" and "lastTs = t0 + int (length rs) - 1"
    and "lastTs \<le> now" and "0 \<le> n" and "n - (now - lastTs) < 60"
  shows "flush (recordAll self t0 rs) now n
           = histograms (foldl aggregateSamples []
               (map (\<lambda>ls. Val (decodeLines ls Null []))
                  (lastN (nat (n + 1 - (now - lastTs))) rs))) []
         \<and> bucket (flushAggregates (recordAll self t0 rs) now n) metric label
           = sumWindows (map (\<lambda>ls. decodeLines ls Null [])
               (lastN (nat (n + 1 - (now - lastTs))) rs)) metric label"
proof -
  define m where "m = nat (n + 1 - (now - lastTs))"
  have "ls \<noteq> []" if "decodeLines ls Null [] \<noteq> []" for ls
    using that by auto
  with assms(4) have lines: "list_all (\<lambda>ls. ls \<noteq> []) rs"
    by (simp add: list_all_iff)
  have last: "lastTimestamp (recordAll self t0 rs) = Val lastTs"
    using merge_after_reports(1) [OF assms(1,2,3) lines assms(5), of 0] assms(6) by simp
  have merged: "mergeRange (now - n) lastTs (windows (recordAll self t0 rs)) []
                  = foldl aggregateSamples [] (map (\<lambda>ls. Val (decodeLines ls Null [])) (lastN m rs))"
  proof (cases "now - n \<le> lastTs")
    case True
    define n' where "n' = n - (now - lastTs)"
    from True assms have n': "0 \<le> n'" "n' < 60" by (simp_all add: n'_def)
    have "nat n' + 1 = m" using n' by (simp add: m_def n'_def)
    moreover have "lastTs - n' = now - n" by (simp add: n'_def)
    ultimately show ?thesis
      using merge_after_reports(2) [OF assms(1,2,3) lines assms(5) n'] assms(6) by simp
  next
    case False
    then have "m = 0" by (simp add: m_def)
    with False show ?thesis by (simp add: mergeRange_stop lastN_def)
  qed
  then have agg: "flushAggregates (recordAll self t0 rs) now n
                  = foldl aggregateSamples [] (map (\<lambda>ls. Val (decodeLines ls Null [])) (lastN m rs))"
    using last by (simp add: flushAggregates_def)
  have wf: "list_all wfMetrics (map (\<lambda>ls. decodeLines ls Null []) (lastN m rs))"
    by (simp add: list_all_iff wfMetrics_decoded)
  have "map (\<lambda>ls. Val (decodeLines ls Null [])) (lastN m rs)
          = map Val (map (\<lambda>ls. decodeLines ls Null []) (lastN m rs))"
    by simp
  then have "bucket (flushAggregates (recordAll self t0 rs) now n) metric label
           = sumWindows (map (\<lambda>ls. decodeLines ls Null []) (lastN m rs)) metric label"
    using bucket_merge_windows [OF wf, of "[]" metric label]
    by (simp only: agg sumWindows_def) (simp add: bucket_def getProp_empty)
  then show ?thesis
    by (simp add: flush_def agg m_def)
qed

theorem C1_witness:
  "flush (recordAll fresh 100 [[''=read'', ''10|1''], [''=read'', ''10|2'', ''20|1''],
            [''=read'', ''10|4'']]) 103 2
     = [(''read'', [(''_type'', JStr ''n''), (''_value'', JArr [''H[10]=6'', ''H[20]=1''])])]
   \<and> bucket (flushAggregates (recordAll fresh 100 [[''=read'', ''10|1''],
               [''=read'', ''10|2'', ''20|1''], [''=read'', ''10|4'']]) 103 2) ''read'' ''10''
     = Some (Num 6)"
proof -
  let ?rs = "[[''=read'', ''10|1''], [''=read'', ''10|2'', ''20|1''], [''=read'', ''10|4'']]"
  have d: "map (\<lambda>ls. decodeLines ls Null []) ?rs
             = [[(''read'', [(''10'', Num 1)])], [(''read'', [(''10'', Num 2), (''20'', Num 1)])],
                [(''read'', [(''10'', Num 4)])]]"
    by (simp add: js_defs)
  have h: "list_all (\<lambda>ls. decodeLines ls Null [] \<noteq> []) ?rs"
    using d by simp
  have f: "windows fresh = replicate 60 Null" "lastTimestamp fresh = Undefined"
    by (simp_all add: fresh_def start_def)
  note C1_flush_merges_last_windows [OF f _ h, where ?t0.0 = 100 and lastTs = 102
      and now = 103 and n = 2 and metric = "''read''" and label = "''10''"]
  moreover have "histograms (foldl aggregateSamples []
               (map Val (lastN 2 (map (\<lambda>ls. decodeLines ls Null []) ?rs)))) []
     = [(''read'', [(''_type'', JStr ''n''), (''_value'', JArr [''H[10]=6'', ''H[20]=1''])])]"
    unfolding d by (simp add: lastN_def js_defs showNat.simps)
  moreover have "sumWindows (lastN 2 (map (\<lambda>ls. decodeLines ls Null []) ?rs)) ''read'' ''10''
                   = Some (Num 6)"
    unfolding d by (simp add: lastN_def sumWindows_def bucket_def js_defs)
  ultimately show ?thesis
    by (simp add: lastN_def drop_map)
qed

section \<open>The constructor and a flush with nothing recorded\<close>

text \<open>
  C9. Constructing the aggregator with a script that is \<open>null\<close> or \<open>undefined\<close>
  raises an error, and no other argument does; the functions of the started object
  return values, never errors. A flush over a span of seconds none of whose slots
  holds data returns the empty mapping.
\<close>

theorem C9_constructor_error_and_empty_flush:
  "Dtrace Undefined = Inl (Error ''Script is a required parameter for Dtrace class'')
   \<and> Dtrace Null = Inl (Error ''Script is a required parameter for Dtrace class'')
   \<and> (\<forall>s. Dtrace (Val s) =
          Inr \<lparr>script = s, inline = (take 1 s \<noteq> ''/''), windows = replicate 60 Null,
               lastTimestamp = Undefined\<rparr>)
   \<and> ((\<forall>l j. toNumber (lastTimestamp self) = Some l \<longrightarrow> now - numSamples \<le> j
          \<longrightarrow> j \<le> l \<longrightarrow> noData (slotOf (windows self) j))
        \<longrightarrow> flush self now numSamples = [])"
proof -
  have "flush self now numSamples = []"
    if h: "\<forall>l j. toNumber (lastTimestamp self) = Some l \<longrightarrow> now - numSamples \<le> j
          \<longrightarrow> j \<le> l \<longrightarrow> noData (slotOf (windows self) j)"
  proof (cases "toNumber (lastTimestamp self)")
    case None
    then show ?thesis by (simp add: flush_def flushAggregates_def)
  next
    case (Some l)
    have "mergeRange (now - numSamples) l (windows self) [] = []"
      by (rule mergeRange_noData) (use h Some in blast)
    then show ?thesis using Some by (simp add: flush_def flushAggregates_def)
  qed
  then show ?thesis by (simp add: Dtrace_def)
qed

theorem C9_witness:
  "Dtrace Undefined = Inl (Error ''Script is a required parameter for Dtrace class'')
   \<and> Dtrace (Val ''syscall:::entry'') =
       Inr \<lparr>script = ''syscall:::entry'', inline = True, windows = replicate 60 Null,
            lastTimestamp = Undefined\<rparr>
   \<and> flush \<lparr>script = ''syscall:::entry'', inline = True, windows = replicate 60 Null,
              lastTimestamp = Val 100\<rparr> 100 10 = []"
proof -
  let ?self = "\<lparr>script = ''syscall:::entry'', inline = True,
                windows = replicate 60 (Null :: metrics js), lastTimestamp = Val 100\<rparr>"
  have "noData (slotOf (windows ?self) j)" if "100 - 10 \<le> j" for j
    using that by (simp add: slotOf_nonneg noData_def nat_less_iff)
  then show ?thesis
    using C9_constructor_error_and_empty_flush [of ?self 100 10] by simp
qed

section \<open>Two sample lines for one bucket\<close>




section \<open>What flush writes\<close>

lemma length_initPropH: "length (initPropH h a k v) = length h"
  by (simp add: initPropH_def)

lemma nth_initPropH: "b \<noteq> a \<Longrightarrow> initPropH h a k v ! b = h ! b"
  by (simp add: initPropH_def)

lemma length_addToH: "length (addToH h ta sa k) = length h"
  by (simp add: addToH_def)

lemma nth_addToH: "b \<noteq> ta \<Longrightarrow> addToH h ta sa k ! b = h ! b"
  by (simp add: addToH_def)

lemma length_addSamplesH: "length (addSamplesH h ta sa ks) = length h"
  by (induction ks arbitrary: h) (simp_all add: length_addToH length_initPropH)

lemma nth_addSamplesH: "b \<noteq> ta \<Longrightarrow> addSamplesH h ta sa ks ! b = h ! b"
  by (induction ks arbitrary: h) (simp_all add: nth_addToH nth_initPropH)

lemma privTgt_ref:
  assumes "privTgt base h tgt" and "getProp (h ! tgt) k = Some v"
  obtains b where "v = HRef b" and "base \<le> b" and "b < length h" and "b \<noteq> tgt"
proof -
  from assms(2) have "(k, v) \<in> set (h ! tgt)"
    by (simp add: getProp_def map_of_SomeD)
  with assms(1) have "privRef base (length h) tgt v"
    by (auto simp: privTgt_def list_all_iff)
  then show ?thesis
    using that by (cases v) simp_all
qed

lemma addIntoH_frame:
  assumes "privTgt base h tgt"
  shows "length (addIntoH h tgt src m) = length h"
    and "addIntoH h tgt src m ! tgt = h ! tgt"
    and "a < base \<Longrightarrow> addIntoH h tgt src m ! a = h ! a"
proof -
  show "length (addIntoH h tgt src m) = length h"
    by (simp add: addIntoH_def length_addSamplesH split: option.splits hval.splits)
  show "addIntoH h tgt src m ! tgt = h ! tgt"
  proof (cases "getProp (h ! tgt) m")
    case None
    then show ?thesis by (simp add: addIntoH_def split: option.splits hval.splits)
  next
    case (Some v)
    with assms obtain b where "v = HRef b" "b \<noteq> tgt"
      by (rule privTgt_ref)
    with Some show ?thesis
      by (simp add: addIntoH_def nth_addSamplesH split: option.splits hval.splits)
  qed
  show "addIntoH h tgt src m ! a = h ! a" if "a < base"
  proof (cases "getProp (h ! tgt) m")
    case None
    then show ?thesis by (simp add: addIntoH_def split: option.splits hval.splits)
  next
    case (Some v)
    with assms obtain b where "v = HRef b" "base \<le> b"
      by (rule privTgt_ref)
    with Some that show ?thesis
      by (simp add: addIntoH_def nth_addSamplesH split: option.splits hval.splits)
  qed
qed

lemma privTgt_same_target:
  assumes "privTgt base h tgt" and "length h' = length h" and "h' ! tgt = h ! tgt"
  shows "privTgt base h' tgt"
  using assms by (simp add: privTgt_def)

lemma privTgt_addIntoH:
  "privTgt base h tgt \<Longrightarrow> privTgt base (addIntoH h tgt src m) tgt"
  by (rule privTgt_same_target) (simp_all add: addIntoH_frame)

lemma map_snd_insertKey: "set (map snd (insertKey k v ob)) = insert v (set (map snd ob))"
  by (induction ob) auto

lemma distinct_snd_insertKey:
  "v \<notin> set (map snd ob) \<Longrightarrow> distinct (map snd ob) \<Longrightarrow> distinct (map snd (insertKey k v ob))"
proof (induction ob)
  case Nil
  then show ?case by simp
next
  case (Cons p ps)
  have "set (map snd (insertKey k v ps)) = insert v (set (map snd ps))"
    by (rule map_snd_insertKey)
  with Cons show ?case by auto
qed

lemma newProp_frame:
  assumes "privTgt base h tgt"
  shows "length h \<le> length (newProp h tgt m)"
    and "a < length h \<Longrightarrow> a \<noteq> tgt \<Longrightarrow> newProp h tgt m ! a = h ! a"
  using assms by (simp_all add: newProp_def privTgt_def nth_append)

lemma newProp_target:
  assumes "privTgt base h tgt" and "m \<noteq> protoKey"
  shows "newProp h tgt m ! tgt =
           (if hasOwnProperty (h ! tgt) m then h ! tgt
            else insertKey m (HRef (length h)) (h ! tgt))"
  using assms
  by (simp add: newProp_def privTgt_def setProp_def hasOwnProperty_def nth_append)

lemma privTgt_newProp:
  assumes p: "privTgt base h tgt" and m: "m \<noteq> protoKey"
  shows "privTgt base (newProp h tgt m) tgt"
proof (cases "hasOwnProperty (h ! tgt) m")
  case True
  with p show ?thesis by (simp add: newProp_def)
next
  case False
  let ?n = "length h"
  let ?ob = "insertKey m (HRef ?n) (h ! tgt)"
  have tgt: "newProp h tgt m ! tgt = ?ob"
    using p m False by (simp add: newProp_target)
  have len: "length (newProp h tgt m) = Suc ?n"
    using False by (simp add: newProp_def)
  have refs: "\<And>q. q \<in> set (h ! tgt) \<Longrightarrow> privRef base ?n tgt (snd q)"
    using p by (simp add: privTgt_def list_all_iff)
  have "HRef ?n \<notin> set (map snd (h ! tgt))"
  proof
    assume "HRef ?n \<in> set (map snd (h ! tgt))"
    then obtain q where "q \<in> set (h ! tgt)" "snd q = HRef ?n" by auto
    with refs [of q] show False by simp
  qed
  with p have d: "distinct (map snd ?ob)"
    by (simp add: privTgt_def distinct_snd_insertKey)
  have w: "wfObj ?ob"
    using p m False wfObj_setProp [of "h ! tgt" m "HRef ?n"]
    by (simp add: privTgt_def setProp_def hasOwnProperty_def)
  have "privRef base (Suc ?n) tgt (snd q)"
    if "q \<in> set ?ob" for q
  proof -
    from that have "q = (m, HRef ?n) \<or> q \<in> set (h ! tgt)"
      by (simp add: set_insertKey)
    then show ?thesis
    proof
      assume "q = (m, HRef ?n)"
      with p show ?thesis by (simp add: privTgt_def)
    next
      assume "q \<in> set (h ! tgt)"
      from refs [OF this] show ?thesis by (cases "snd q") simp_all
    qed
  qed
  then have "list_all (\<lambda>p. privRef base (Suc ?n) tgt (snd p)) ?ob"
    by (simp add: list_all_iff)
  with p d w show ?thesis
    by (simp add: privTgt_def tgt len)
qed

lemma addMetricsH_frame:
  "privTgt base h tgt \<Longrightarrow> protoKey \<notin> set ks \<Longrightarrow>
     privTgt base (addMetricsH h tgt src ks) tgt
     \<and> length h \<le> length (addMetricsH h tgt src ks)
     \<and> (\<forall>a<base. addMetricsH h tgt src ks ! a = h ! a)"
proof (induction ks arbitrary: h)
  case Nil
  then show ?case by simp
next
  case (Cons m ks)
  let ?h1 = "newProp h tgt m"
  let ?h2 = "addIntoH ?h1 tgt src m"
  note p = Cons.prems(1)
  from Cons.prems(2) have m: "m \<noteq> protoKey" and ks: "protoKey \<notin> set ks" by auto
  from p m have p1: "privTgt base ?h1 tgt" by (rule privTgt_newProp)
  then have p2: "privTgt base ?h2 tgt" by (rule privTgt_addIntoH)
  from p have b: "base \<le> tgt" "tgt < length h" by (simp_all add: privTgt_def)
  have l: "length h \<le> length ?h2"
    using newProp_frame(1) [OF p, of m] by (simp add: addIntoH_frame(1) [OF p1])
  have same: "?h2 ! a = h ! a" if "a < base" for a
    using that b newProp_frame(2) [OF p, of a m]
    by (simp add: addIntoH_frame(3) [OF p1])
  show ?case
    using Cons.IH [OF p2 ks] l same by auto
qed

lemma addInheritedH_frame:
  "privTgt base h tgt \<Longrightarrow> protoKey \<notin> set ks \<Longrightarrow>
     privTgt base (addInheritedH h tgt ks) tgt
     \<and> length h \<le> length (addInheritedH h tgt ks)
     \<and> (\<forall>a<base. addInheritedH h tgt ks ! a = h ! a)"
proof (induction ks arbitrary: h)
  case Nil
  then show ?case by simp
next
  case (Cons m ks)
  let ?h1 = "newProp h tgt m"
  note p = Cons.prems(1)
  from Cons.prems(2) have m: "m \<noteq> protoKey" and ks: "protoKey \<notin> set ks" by auto
  from p m have p1: "privTgt base ?h1 tgt" by (rule privTgt_newProp)
  from p have b: "base \<le> tgt" "tgt < length h" by (simp_all add: privTgt_def)
  have l: "length h \<le> length ?h1"
    using newProp_frame(1) [OF p, of m] .
  have same: "?h1 ! a = h ! a" if "a < base" for a
    using that b newProp_frame(2) [OF p, of a m] by simp
  show ?case
    using Cons.IH [OF p1 ks] l same by auto
qed

lemma proto_ownProps: "protoKey \<notin> set (map fst (ownProps ob))"
  by (auto simp: ownProps_def)

lemma proto_inheritedKeysH: "protoKey \<notin> set (inheritedKeysH h src)"
  by (auto simp: inheritedKeysH_def ownProps_def split: option.splits hval.splits)

lemma aggregateSamplesH_frame:
  assumes p: "privTgt base h tgt"
  shows "privTgt base (aggregateSamplesH h tgt w) tgt
     \<and> length h \<le> length (aggregateSamplesH h tgt w)
     \<and> (\<forall>a<base. aggregateSamplesH h tgt w ! a = h ! a)"
proof (cases w)
  case (Val src)
  let ?h1 = "addMetricsH h tgt src (map fst (ownProps (h ! src)))"
  note f1 = addMetricsH_frame [OF p proto_ownProps, of src "h ! src"]
  then have p1: "privTgt base ?h1 tgt" by simp
  note f2 = addInheritedH_frame [OF p1 proto_inheritedKeysH, of h src]
  from f1 f2 Val show ?thesis by auto
qed (use p in simp_all)

lemma mergeRangeH_frame:
  "privTgt base h tgt \<Longrightarrow>
     privTgt base (mergeRangeH i l ws h tgt) tgt
     \<and> length h \<le> length (mergeRangeH i l ws h tgt)
     \<and> (\<forall>a<base. mergeRangeH i l ws h tgt ! a = h ! a)"
proof (induction i l ws h tgt rule: mergeRangeH.induct)
  case (1 i l ws h tgt)
  show ?case
  proof (cases "i \<le> l")
    case True
    let ?h = "aggregateSamplesH h tgt (readSlot ws (jsRem i 60))"
    note step = aggregateSamplesH_frame [OF "1.prems", of "readSlot ws (jsRem i 60)"]
    then have "privTgt base ?h tgt" by simp
    from "1.IH" [OF True this] step True show ?thesis
      by (simp add: mergeRangeH.simps [of i]) 
  next
    case False
    then show ?thesis using "1.prems" by (simp add: mergeRangeH.simps [of i])
  qed
qed

lemma privTgt_fresh: "privTgt (length h) (h @ [[]]) (length h)"
  by (simp add: privTgt_def wfObj_def)

lemma flushH_frame:
  "ring (fst (flushH self now n)) = ring self
   \<and> cursor (fst (flushH self now n)) = cursor self
   \<and> length (objects self) \<le> length (objects (fst (flushH self now n)))
   \<and> (\<forall>a<length (objects self). objects (fst (flushH self now n)) ! a = objects self ! a)"
proof (cases "toNumber (cursor self)")
  case None
  then show ?thesis by (simp add: flushH_def Let_def nth_append)
next
  case (Some l)
  note f = mergeRangeH_frame [OF privTgt_fresh, of "objects self" "now - n" l "ring self"]
  have "(objects self @ [[]]) ! a = objects self ! a" if "a < length (objects self)" for a
    using that by (simp add: nth_append)
  with f Some show ?thesis
    by (simp add: flushH_def Let_def)
qed

section \<open>The values behind the references\<close>

lemma mapVals_Nil: "mapVals f [] = []"
  by (simp add: mapVals_def)

lemma keys_mapVals: "map fst (mapVals f ob) = map fst ob"
  by (simp add: mapVals_def comp_def)

lemma hasKey_mapVals: "hasKey (mapVals f ob) k = hasKey ob k"
  by (simp add: hasKey_def keys_mapVals)

lemma hasOwnProperty_mapVals: "hasOwnProperty (mapVals f ob) k = hasOwnProperty ob k"
  by (simp add: hasOwnProperty_def hasKey_mapVals)

lemma ownProps_mapVals: "ownProps (mapVals f ob) = mapVals f (ownProps ob)"
  by (induction ob) (simp_all add: ownProps_def mapVals_def)

lemma getProp_mapVals: "getProp (mapVals f ob) k = map_option f (getProp ob k)"
  by (induction ob) (auto simp: getProp_def mapVals_def)

lemma mapVals_insertKey: "mapVals f (insertKey k v ob) = insertKey k (f v) (mapVals f ob)"
  by (induction ob) (simp_all add: mapVals_def)

lemma mapVals_updateKey: "mapVals f (updateKey k v ob) = updateKey k (f v) (mapVals f ob)"
  by (induction ob) (simp_all add: mapVals_def)

lemma mapVals_setProp: "mapVals f (setProp ob k v) = setProp (mapVals f ob) k (f v)"
  by (simp add: setProp_def hasKey_mapVals mapVals_insertKey mapVals_updateKey)

lemma mapVals_initProp: "mapVals f (initProp ob k v) = initProp (mapVals f ob) k (f v)"
  by (simp add: initProp_def hasOwnProperty_mapVals mapVals_setProp)

lemma mapVals_cong:
  "(\<And>p. p \<in> set ob \<Longrightarrow> f (snd p) = g (snd p)) \<Longrightarrow> mapVals f ob = mapVals g ob"
  by (simp add: mapVals_def)

lemma wfObj_mapVals: "wfObj (mapVals f ob) = wfObj ob"
  by (simp add: wfObj_def keys_mapVals)

lemma nth_initPropH_same:
  "a < length h \<Longrightarrow> initPropH h a k v ! a = initProp (h ! a) k v"
  by (simp add: initPropH_def initProp_def)

lemma abs_addSamplesH:
  assumes "ta \<noteq> sa" and "ta < length h" and "protoKey \<notin> set ks"
  shows "mapVals numOf (addSamplesH h ta sa ks ! ta)
           = addSamples (mapVals numOf (h ! ta))
               (map (\<lambda>k. (k, numOf (the (getProp (h ! sa) k)))) ks)"
  using assms
proof (induction ks arbitrary: h)
  case Nil
  then show ?case by simp
next
  case (Cons k ks)
  let ?h1 = "initPropH h ta k (HNum (Num 0))"
  let ?h2 = "addToH ?h1 ta sa k"
  let ?T = "initProp (mapVals numOf (h ! ta)) k (Num 0)"
  have t1: "mapVals numOf (?h1 ! ta) = ?T"
    using Cons.prems by (simp add: nth_initPropH_same mapVals_initProp)
  have s1: "?h1 ! sa = h ! sa"
    using Cons.prems by (simp add: nth_initPropH)
  from Cons.prems have k: "k \<noteq> protoKey" by auto
  have present: "getProp ?T k \<noteq> None"
    by (simp add: getProp_initProp)
  have "numOf (the (getProp (?h1 ! ta) k)) = the (getProp ?T k)"
    using present unfolding t1 [symmetric] by (auto simp: getProp_mapVals)
  then have t2: "mapVals numOf (?h2 ! ta) = addTo ?T k (numOf (the (getProp (h ! sa) k)))"
    using Cons.prems
    by (simp add: addToH_def length_initPropH mapVals_setProp t1 s1 addTo_def)
  have s2: "?h2 ! sa = h ! sa"
    using Cons.prems by (simp add: nth_addToH s1)
  have "mapVals numOf (addSamplesH ?h2 ta sa ks ! ta)
           = addSamples (mapVals numOf (?h2 ! ta))
               (map (\<lambda>k. (k, numOf (the (getProp (?h2 ! sa) k)))) ks)"
    using Cons.prems by (intro Cons.IH) (simp_all add: length_addToH length_initPropH)
  then show ?case
    using k by (simp add: t2 s2)
qed

lemma keys_snapshot:
  "wfObj ob \<Longrightarrow> map (\<lambda>k. (k, f (the (getProp ob k)))) (map fst ob) = mapVals f ob"
proof (induction ob)
  case Nil
  then show ?case by (simp add: mapVals_def)
next
  case (Cons p ps)
  from Cons.prems have ps: "wfObj ps" and p: "fst p \<notin> set (map fst ps)"
    by (simp_all add: wfObj_def)
  have "map (\<lambda>k. (k, f (the (getProp (p # ps) k)))) (map fst ps)
          = map (\<lambda>k. (k, f (the (getProp ps k)))) (map fst ps)"
  proof (rule map_cong [OF refl])
    fix k assume "k \<in> set (map fst ps)"
    with p have "k \<noteq> fst p" by metis
    then show "(k, f (the (getProp (p # ps) k))) = (k, f (the (getProp ps k)))"
      by (simp add: getProp_Cons)
  qed
  with Cons.IH [OF ps] show ?case
    by (simp add: mapVals_def getProp_Cons)
qed

lemma getProp_ownProps: "k \<noteq> protoKey \<Longrightarrow> getProp (ownProps ob) k = getProp ob k"
  by (induction ob) (auto simp: getProp_def ownProps_def)

lemma wfObj_ownProps: "wfObj ob \<Longrightarrow> wfObj (ownProps ob)"
  by (simp add: wfObj_def ownProps_def distinct_map_filter)

text \<open>The keys that \<open>for ... in\<close> takes from an object when the loop starts, each with
  the value read in the loop, are the own properties of the object.\<close>

lemma keys_snapshot_own:
  assumes "wfObj ob"
  shows "map (\<lambda>k. (k, f (the (getProp ob k)))) (map fst (ownProps ob)) = ownProps (mapVals f ob)"
proof -
  have "map (\<lambda>k. (k, f (the (getProp ob k)))) (map fst (ownProps ob))
          = map (\<lambda>k. (k, f (the (getProp (ownProps ob) k)))) (map fst (ownProps ob))"
  proof (rule map_cong [OF refl])
    fix k assume "k \<in> set (map fst (ownProps ob))"
    then have "k \<noteq> protoKey" by (auto simp: ownProps_def)
    then show "(k, f (the (getProp ob k))) = (k, f (the (getProp (ownProps ob) k)))"
      by (simp add: getProp_ownProps)
  qed
  also have "\<dots> = mapVals f (ownProps ob)"
    using assms by (intro keys_snapshot wfObj_ownProps)
  finally show ?thesis by (simp add: ownProps_mapVals)
qed

lemma addSamples_ownProps: "addSamples tgt (ownProps src) = addSamples tgt src"
  by (induction src arbitrary: tgt) (simp_all add: ownProps_def)

lemma addMetrics_ownProps: "addMetrics tgt (ownProps src) = addMetrics tgt src"
  by (induction src arbitrary: tgt) (simp_all add: ownProps_def)

lemma mapVals_change_one:
  assumes "wfObj ob" and "getProp ob m = Some v0"
    and "\<And>p. p \<in> set ob \<Longrightarrow> fst p \<noteq> m \<Longrightarrow> g (snd p) = f (snd p)"
  shows "mapVals g ob = setProp (mapVals f ob) m (g v0)"
proof -
  have "mapVals g ob = updateKey m (g v0) (mapVals f ob)"
    using assms
  proof (induction ob)
    case Nil
    then show ?case by (simp add: getProp_empty)
  next
    case (Cons p ps)
    from Cons.prems(1) have ps: "wfObj ps" and p: "fst p \<notin> set (map fst ps)"
      by (simp_all add: wfObj_def)
    show ?case
    proof (cases "fst p = m")
      case True
      with Cons.prems(2) have v0: "snd p = v0" by (simp add: getProp_Cons)
      have "mapVals g ps = mapVals f ps"
      proof (rule mapVals_cong)
        fix q assume q: "q \<in> set ps"
        then have "fst q \<in> set (map fst ps)" by simp
        with p True have "fst q \<noteq> m" by metis
        with q Cons.prems(3) [of q] show "g (snd q) = f (snd q)" by simp
      qed
      with True v0 show ?thesis by (simp add: mapVals_def)
    next
      case False
      with Cons.prems(2) have "getProp ps m = Some v0" by (simp add: getProp_Cons)
      then have "mapVals g ps = updateKey m (g v0) (mapVals f ps)"
        using Cons.prems(3) by (intro Cons.IH [OF ps]) simp_all
      moreover have "g (snd p) = f (snd p)"
        using False Cons.prems(3) [of p] by simp
      ultimately show ?thesis
        using False by (simp add: mapVals_def)
    qed
  qed
  moreover have "hasKey (mapVals f ob) m"
    using assms(2) by (simp add: hasKey_getProp getProp_mapVals)
  ultimately show ?thesis by (simp add: setProp_def)
qed

lemma absSamples_same:
  assumes "privRef base n tgt v" and "\<And>b. base \<le> b \<Longrightarrow> b < n \<Longrightarrow> b \<noteq> tgt \<Longrightarrow> h' ! b = h ! b"
  shows "absSamples h' v = absSamples h v"
  using assms by (cases v) simp_all

lemma abs_newProp:
  assumes p: "privTgt base h tgt" and m: "m \<noteq> protoKey"
  shows "absObj (newProp h tgt m) tgt = initProp (absObj h tgt) m []"
proof (cases "hasOwnProperty (h ! tgt) m")
  case True
  then show ?thesis
    by (simp add: newProp_def initProp_def absObj_def hasOwnProperty_mapVals)
next
  case False
  let ?n = "length h"
  let ?h1 = "newProp h tgt m"
  from p have tgt: "tgt < ?n" by (simp add: privTgt_def)
  have t1: "?h1 ! tgt = setProp (h ! tgt) m (HRef ?n)"
    using p m False by (simp add: newProp_target setProp_def hasOwnProperty_def)
  have new: "?h1 ! ?n = []"
    using False tgt by (simp add: newProp_def)
  have old: "?h1 ! b = h ! b" if "b < ?n" "b \<noteq> tgt" for b
    using that newProp_frame(2) [OF p] by simp
  have "mapVals (absSamples ?h1) (h ! tgt) = mapVals (absSamples h) (h ! tgt)"
  proof (rule mapVals_cong)
    fix q assume "q \<in> set (h ! tgt)"
    with p have "privRef base ?n tgt (snd q)"
      by (simp add: privTgt_def list_all_iff)
    then show "absSamples ?h1 (snd q) = absSamples h (snd q)"
      using old by (rule absSamples_same)
  qed
  then have "absObj ?h1 tgt = setProp (absObj h tgt) m []"
    by (simp add: absObj_def t1 mapVals_setProp new mapVals_Nil)
  moreover have "\<not> hasOwnProperty (absObj h tgt) m"
    using False by (simp add: absObj_def hasOwnProperty_mapVals)
  ultimately show ?thesis
    by (simp add: initProp_def)
qed

lemma abs_addIntoH:
  assumes p: "privTgt base h tgt" and own: "hasOwnProperty (h ! tgt) m"
    and src: "getProp (h ! src) m = Some (HRef sa)" and sa: "sa < base" "wfObj (h ! sa)"
  shows "absObj (addIntoH h tgt src m) tgt = addInto (absObj h tgt) m (absSamples h (HRef sa))"
proof -
  from own obtain v where v: "getProp (h ! tgt) m = Some v"
    by (auto simp: hasOwnProperty_getProp)
  with p obtain ta where ta: "v = HRef ta" "base \<le> ta" "ta < length h" "ta \<noteq> tgt"
    by (rule privTgt_ref)
  define h2 where "h2 = addSamplesH h ta sa (map fst (ownProps (h ! sa)))"
  have h2: "addIntoH h tgt src m = h2"
    using src v ta by (simp add: addIntoH_def h2_def)
  have tgt2: "h2 ! tgt = h ! tgt"
    using ta by (simp add: h2_def nth_addSamplesH)
  have ne: "ta \<noteq> sa" using ta sa by simp
  have "mapVals numOf (h2 ! ta)
          = addSamples (mapVals numOf (h ! ta))
              (map (\<lambda>k. (k, numOf (the (getProp (h ! sa) k)))) (map fst (ownProps (h ! sa))))"
    unfolding h2_def by (rule abs_addSamplesH [OF ne ta(3) proto_ownProps])
  also have "map (\<lambda>k. (k, numOf (the (getProp (h ! sa) k)))) (map fst (ownProps (h ! sa)))
               = ownProps (mapVals numOf (h ! sa))"
    by (rule keys_snapshot_own [OF sa(2)])
  finally have new: "mapVals numOf (h2 ! ta)
                       = addSamples (mapVals numOf (h ! ta)) (mapVals numOf (h ! sa))"
    by (simp add: addSamples_ownProps)
  from p have wf: "wfObj (h ! tgt)" and d: "distinct (map snd (h ! tgt))"
    by (simp_all add: privTgt_def)
  have "mapVals (absSamples h2) (h ! tgt)
          = setProp (mapVals (absSamples h) (h ! tgt)) m (absSamples h2 (HRef ta))"
  proof (rule mapVals_change_one [OF wf])
    show "getProp (h ! tgt) m = Some (HRef ta)" using v ta by simp
  next
    fix q assume q: "q \<in> set (h ! tgt)" "fst q \<noteq> m"
    have m: "(m, HRef ta) \<in> set (h ! tgt)"
      using v ta by (simp add: getProp_def map_of_SomeD)
    have "snd q \<noteq> HRef ta"
    proof
      assume "snd q = HRef ta"
      with d q(1) m have "q = (m, HRef ta)"
        by (auto simp: distinct_map inj_on_def)
      with q(2) show False by simp
    qed
    then show "absSamples h2 (snd q) = absSamples h (snd q)"
      by (cases "snd q") (simp_all add: h2_def nth_addSamplesH)
  qed
  then show ?thesis
    using v ta
    by (simp add: h2 absObj_def tgt2 new addInto_def getProp_mapVals)
qed

lemma abs_addMetricsH:
  assumes "privTgt base h tgt" and "src < base"
    and "list_all (\<lambda>k. case getProp (h ! src) k of
                          Some v \<Rightarrow> wfSamplesRef h base v | None \<Rightarrow> False) ks"
    and "protoKey \<notin> set ks"
  shows "absObj (addMetricsH h tgt src ks) tgt
           = addMetrics (absObj h tgt)
               (map (\<lambda>k. (k, absSamples h (the (getProp (h ! src) k)))) ks)"
  using assms
proof (induction ks arbitrary: h)
  case Nil
  then show ?case by simp
next
  case (Cons m ks)
  let ?h1 = "newProp h tgt m"
  let ?h2 = "addIntoH ?h1 tgt src m"
  note p = Cons.prems(1)
  from Cons.prems(4) have m: "m \<noteq> protoKey" and ks: "protoKey \<notin> set ks" by auto
  from p have b: "base \<le> tgt" "tgt < length h" by (simp_all add: privTgt_def)
  from p m have p1: "privTgt base ?h1 tgt" by (rule privTgt_newProp)
  then have p2: "privTgt base ?h2 tgt" by (rule privTgt_addIntoH)
  have same1: "?h1 ! a = h ! a" if "a < base" for a
    using that b newProp_frame(2) [OF p, of a m] by simp
  have same2: "?h2 ! a = h ! a" if "a < base" for a
    using that same1 by (simp add: addIntoH_frame(3) [OF p1])
  from Cons.prems(3) obtain sa where sa: "getProp (h ! src) m = Some (HRef sa)"
      "sa < base" "wfObj (h ! sa)"
    by (cases "getProp (h ! src) m"; cases "the (getProp (h ! src) m)") auto
  have own: "hasOwnProperty (?h1 ! tgt) m"
    using p m by (auto simp: newProp_target hasOwnProperty_def hasKey_def set_insertKey)
  have "absObj ?h2 tgt = addInto (absObj ?h1 tgt) m (absSamples ?h1 (HRef sa))"
    using sa Cons.prems(2) by (intro abs_addIntoH [OF p1 own]) (simp_all add: same1)
  then have step: "absObj ?h2 tgt = addInto (initProp (absObj h tgt) m []) m (absSamples h (HRef sa))"
    using sa by (simp add: abs_newProp [OF p m] same1)
  have rest: "list_all (\<lambda>k. case getProp (?h2 ! src) k of
                          Some v \<Rightarrow> wfSamplesRef ?h2 base v | None \<Rightarrow> False) ks"
    unfolding list_all_iff
  proof
    fix k assume "k \<in> set ks"
    with Cons.prems(3) have "case getProp (h ! src) k of
                          Some v \<Rightarrow> wfSamplesRef h base v | None \<Rightarrow> False"
      by (simp add: list_all_iff)
    then obtain v where v: "getProp (h ! src) k = Some v" "wfSamplesRef h base v"
      by (cases "getProp (h ! src) k") simp_all
    then have "wfSamplesRef ?h2 base v"
      by (cases v) (simp_all add: same2)
    with v show "case getProp (?h2 ! src) k of
                          Some v \<Rightarrow> wfSamplesRef ?h2 base v | None \<Rightarrow> False"
      using Cons.prems(2) by (simp add: same2)
  qed
  have "map (\<lambda>k. (k, absSamples ?h2 (the (getProp (?h2 ! src) k)))) ks
          = map (\<lambda>k. (k, absSamples h (the (getProp (h ! src) k)))) ks"
  proof (rule map_cong [OF refl])
    fix k assume "k \<in> set ks"
    with Cons.prems(3) have "case getProp (h ! src) k of
                          Some v \<Rightarrow> wfSamplesRef h base v | None \<Rightarrow> False"
      by (simp add: list_all_iff)
    then obtain v where v: "getProp (h ! src) k = Some v" "wfSamplesRef h base v"
      by (cases "getProp (h ! src) k") simp_all
    then have "absSamples ?h2 v = absSamples h v"
      by (cases v) (simp_all add: same2)
    with v show "(k, absSamples ?h2 (the (getProp (?h2 ! src) k)))
                   = (k, absSamples h (the (getProp (h ! src) k)))"
      using Cons.prems(2) by (simp add: same2)
  qed
  with Cons.IH [OF p2 Cons.prems(2) rest ks] step sa m show ?case
    by simp
qed

lemma abs_addInheritedH:
  "privTgt base h tgt \<Longrightarrow> protoKey \<notin> set ks \<Longrightarrow>
     absObj (addInheritedH h tgt ks) tgt = addInherited (absObj h tgt) ks"
proof (induction ks arbitrary: h)
  case Nil
  then show ?case by simp
next
  case (Cons m ks)
  from Cons.prems(2) have m: "m \<noteq> protoKey" and ks: "protoKey \<notin> set ks" by auto
  from Cons.prems(1) m have p1: "privTgt base (newProp h tgt m) tgt" by (rule privTgt_newProp)
  show ?case
    using Cons.IH [OF p1 ks] by (simp add: abs_newProp [OF Cons.prems(1) m])
qed

lemma wfSlot_frame:
  assumes "wfSlot h base w" and "\<And>a. a < base \<Longrightarrow> h' ! a = h ! a"
  shows "wfSlot h' base w" and "absSlot h' w = absSlot h w"
proof -
  show "wfSlot h' base w"
  proof (cases w)
    case (Val a)
    with assms(1) have a: "a < base" "wfObj (h ! a)"
      and refs: "\<And>p. p \<in> set (h ! a) \<Longrightarrow> wfSamplesRef h base (snd p)"
      by (simp_all add: list_all_iff)
    have "wfSamplesRef h' base (snd p)" if "p \<in> set (h ! a)" for p
      using refs [OF that] assms(2) by (cases "snd p") simp_all
    with a assms(2) Val show ?thesis by (simp add: list_all_iff)
  qed simp_all
  show "absSlot h' w = absSlot h w"
  proof (cases w)
    case (Val a)
    with assms(1) have a: "a < base"
      and refs: "\<And>p. p \<in> set (h ! a) \<Longrightarrow> wfSamplesRef h base (snd p)"
      by (simp_all add: list_all_iff)
    have "mapVals (absSamples h') (h ! a) = mapVals (absSamples h) (h ! a)"
    proof (rule mapVals_cong)
      fix p assume "p \<in> set (h ! a)"
      from refs [OF this] show "absSamples h' (snd p) = absSamples h (snd p)"
        using assms(2) by (cases "snd p") simp_all
    qed
    with a assms(2) Val show ?thesis by (simp add: absObj_def)
  qed simp_all
qed

lemma abs_inheritedKeysH:
  assumes "wfSlot h base (Val src)"
  shows "inheritedKeysH h src = inheritedKeys (absObj h src)"
proof (cases "getProp (h ! src) protoKey")
  case None
  then show ?thesis
    by (simp add: inheritedKeysH_def inheritedKeys_def absObj_def getProp_mapVals)
next
  case (Some v)
  then have "(protoKey, v) \<in> set (h ! src)"
    by (simp add: getProp_def map_of_SomeD)
  with assms have "wfSamplesRef h base v"
    by (auto simp: list_all_iff)
  then obtain b where "v = HRef b" by (cases v) simp_all
  with Some show ?thesis
    by (simp add: inheritedKeysH_def inheritedKeys_def absObj_def getProp_mapVals
          hasOwnProperty_mapVals ownProps_mapVals keys_mapVals)
qed

lemma abs_aggregateSamplesH:
  assumes p: "privTgt base h tgt" and w: "wfSlot h base w"
  shows "absObj (aggregateSamplesH h tgt w) tgt = aggregateSamples (absObj h tgt) (absSlot h w)"
proof (cases w)
  case (Val src)
  with w have src: "src < base" "wfObj (h ! src)"
    and refs: "\<And>p. p \<in> set (h ! src) \<Longrightarrow> wfSamplesRef h base (snd p)"
    by (simp_all add: list_all_iff)
  let ?ks = "map fst (ownProps (h ! src))"
  let ?h1 = "addMetricsH h tgt src ?ks"
  have keys: "list_all (\<lambda>k. case getProp (h ! src) k of
                          Some v \<Rightarrow> wfSamplesRef h base v | None \<Rightarrow> False) ?ks"
    unfolding list_all_iff
  proof
    fix k assume "k \<in> set ?ks"
    then have "k \<in> set (map fst (h ! src))" by (auto simp: ownProps_def)
    then obtain v where v: "getProp (h ! src) k = Some v"
      by (cases "getProp (h ! src) k") (auto simp: getProp_def map_of_eq_None_iff)
    then have "(k, v) \<in> set (h ! src)"
      by (simp add: getProp_def map_of_SomeD)
    from refs [OF this] v
    show "case getProp (h ! src) k of Some v \<Rightarrow> wfSamplesRef h base v | None \<Rightarrow> False"
      by simp
  qed
  have "absObj ?h1 tgt
          = addMetrics (absObj h tgt)
              (map (\<lambda>k. (k, absSamples h (the (getProp (h ! src) k)))) ?ks)"
    by (rule abs_addMetricsH [OF p src(1) keys proto_ownProps])
  also have "map (\<lambda>k. (k, absSamples h (the (getProp (h ! src) k)))) ?ks
               = ownProps (absObj h src)"
    unfolding absObj_def by (rule keys_snapshot_own [OF src(2)])
  finally have own: "absObj ?h1 tgt = addMetrics (absObj h tgt) (absObj h src)"
    by (simp add: addMetrics_ownProps)
  from addMetricsH_frame [OF p proto_ownProps, of src "h ! src"]
  have p1: "privTgt base ?h1 tgt" by simp
  have "absObj (addInheritedH ?h1 tgt (inheritedKeysH h src)) tgt
          = addInherited (absObj ?h1 tgt) (inheritedKeysH h src)"
    using p1 proto_inheritedKeysH by (rule abs_addInheritedH)
  moreover have "inheritedKeysH h src = inheritedKeys (absObj h src)"
    using w Val by (intro abs_inheritedKeysH [of h base]) simp
  ultimately show ?thesis using Val own by simp
qed simp_all

lemma readSlot_map: "readSlot (map f ws) i = (if 0 \<le> i \<and> nat i < length ws then f (ws ! nat i) else Undefined)"
  by (simp add: readSlot_def)

lemma abs_mergeRangeH:
  assumes "privTgt base h tgt" and "list_all (wfSlot h base) ws"
  shows "absObj (mergeRangeH i l ws h tgt) tgt
           = mergeRange i l (map (absSlot h) ws) (absObj h tgt)"
  using assms
proof (induction i l ws h tgt rule: mergeRangeH.induct)
  case (1 i l ws h tgt)
  show ?case
  proof (cases "i \<le> l")
    case True
    let ?w = "readSlot ws (jsRem i 60)"
    let ?h = "aggregateSamplesH h tgt ?w"
    have w: "wfSlot h base ?w"
      using "1.prems"(2) by (simp add: readSlot_def list_all_iff)
    have rd: "readSlot (map (absSlot h) ws) (jsRem i 60) = absSlot h ?w"
      by (simp add: readSlot_def)
    note fr = aggregateSamplesH_frame [OF "1.prems"(1), of ?w]
    then have p': "privTgt base ?h tgt" and same: "\<And>a. a < base \<Longrightarrow> ?h ! a = h ! a"
      by simp_all
    have ws': "list_all (wfSlot ?h base) ws"
      unfolding list_all_iff
    proof
      fix x assume "x \<in> set ws"
      with "1.prems"(2) have "wfSlot h base x" by (simp add: list_all_iff)
      then show "wfSlot ?h base x" using same by (rule wfSlot_frame(1))
    qed
    have m: "map (absSlot ?h) ws = map (absSlot h) ws"
    proof (rule map_cong [OF refl])
      fix x assume "x \<in> set ws"
      with "1.prems"(2) have "wfSlot h base x" by (simp add: list_all_iff)
      then show "absSlot ?h x = absSlot h x" using same by (rule wfSlot_frame(2))
    qed
    have "absObj (mergeRangeH (i + 1) l ws ?h tgt) tgt
            = mergeRange (i + 1) l (map (absSlot ?h) ws) (absObj ?h tgt)"
      using True p' ws' by (rule "1.IH")
    then show ?thesis
      using True
      by (simp add: mergeRangeH.simps [of i] mergeRange.simps [of i] m rd
            abs_aggregateSamplesH [OF "1.prems"(1) w])
  next
    case False
    then show ?thesis
      by (simp add: mergeRangeH.simps [of i] mergeRange.simps [of i])
  qed
qed

lemma histogramsH_abs: "histogramsH h ob hs = histograms (mapVals (absSamples h) ob) hs"
proof (induction ob arbitrary: hs)
  case Nil
  then show ?case by (simp add: mapVals_def)
next
  case (Cons p ps)
  have "makeHistogramH h (snd p) = makeHistogram (absSamples h (snd p))"
  proof (cases "snd p")
    case (HNum c)
    then show ?thesis
      by (simp add: makeHistogramH_def makeHistogram_def ownProps_def)
  next
    case (HRef a)
    have "makeHistogram (mapVals numOf (h ! a))
            = map (\<lambda>p. ''H['' @ fst p @ '']='' @ showNum (snd p)) (mapVals numOf (ownProps (h ! a)))"
      by (simp only: makeHistogram_def ownProps_mapVals)
    then show ?thesis
      using HRef by (simp add: makeHistogramH_def mapVals_def comp_def)
  qed
  with Cons show ?case
    by (simp add: mapVals_def histogramValue_def)
qed

lemma flushH_refines:
  assumes "wfStore self"
  shows "snd (flushH self now n) = flush (absStore self) now n"
proof -
  let ?h = "objects self"
  let ?init = "?h @ [[]]"
  let ?agg = "length ?h"
  have same: "?init ! a = ?h ! a" if "a < length ?h" for a
    using that by (simp add: nth_append)
  have slots: "wfSlot ?h (length ?h) x" if "x \<in> set (ring self)" for x
    using assms that by (simp add: wfStore_def list_all_iff)
  have ws0: "list_all (wfSlot ?init (length ?h)) (ring self)"
    unfolding list_all_iff using slots same by (auto intro: wfSlot_frame(1))
  have m0: "map (absSlot ?init) (ring self) = map (absSlot ?h) (ring self)"
    using slots same by (auto intro: wfSlot_frame(2))
  have e0: "absObj ?init ?agg = []"
    by (simp add: absObj_def mapVals_def)
  show ?thesis
  proof (cases "toNumber (cursor self)")
    case None
    then show ?thesis
      by (simp add: flushH_def Let_def flush_def flushAggregates_def absStore_def)
  next
    case (Some l)
    have "absObj (mergeRangeH (now - n) l (ring self) ?init ?agg) ?agg
            = mergeRange (now - n) l (map (absSlot ?init) (ring self)) (absObj ?init ?agg)"
      using privTgt_fresh ws0 by (rule abs_mergeRangeH)
    then show ?thesis
      using Some
      by (simp add: flushH_def Let_def flush_def flushAggregates_def absStore_def
            histogramsH_abs m0 e0 absObj_def mapVals_Nil)
  qed
qed

lemma flushH_keeps_wfStore:
  assumes "wfStore self"
  shows "wfStore (fst (flushH self now n))" and "absStore (fst (flushH self now n)) = absStore self"
proof -
  let ?s = "fst (flushH self now n)"
  note f = flushH_frame [of self now n]
  then have ring: "ring ?s = ring self" and cur: "cursor ?s = cursor self"
    and len: "length (objects self) \<le> length (objects ?s)"
    and same: "\<And>a. a < length (objects self) \<Longrightarrow> objects ?s ! a = objects self ! a"
    by simp_all
  have slots: "wfSlot (objects self) (length (objects self)) x" if "x \<in> set (ring self)" for x
    using assms that by (simp add: wfStore_def list_all_iff)
  have grow: "wfSlot h b' w" if "wfSlot h b w" "b \<le> b'" for h b b' w
  proof (cases w)
    case (Val a)
    with that(1) have a: "a < b" "wfObj (h ! a)"
      and refs: "\<And>p. p \<in> set (h ! a) \<Longrightarrow> wfSamplesRef h b (snd p)"
      by (simp_all add: list_all_iff)
    have "wfSamplesRef h b' (snd p)" if "p \<in> set (h ! a)" for p
      using refs [OF that] \<open>b \<le> b'\<close> by (cases "snd p") simp_all
    with a Val that(2) show ?thesis by (simp add: list_all_iff)
  qed simp_all
  have "wfSlot (objects ?s) (length (objects ?s)) x" if "x \<in> set (ring self)" for x
    using wfSlot_frame(1) [OF slots [OF that] same] len by (rule grow)
  then show "wfStore ?s"
    by (simp add: wfStore_def list_all_iff ring)
  have "map (absSlot (objects ?s)) (ring self) = map (absSlot (objects self)) (ring self)"
    using slots same by (auto intro: wfSlot_frame(2))
  then show "absStore ?s = absStore self"
    by (simp add: absStore_def ring cur)
qed

text \<open>
  C7. Flush is a pure read. On a store whose windows are well formed, \<open>flush\<close>
  leaves the ring and \<open>lastTimestamp\<close> as they are and changes no object that
  existed before the call, so every window keeps its content: it writes only to objects
  that it creates. What it returns is what the function \<open>flush\<close> of the first
  embedding computes from the content of the windows, and a second call at the same
  second with the same argument returns the same.
\<close>

theorem C7_flush_is_a_pure_read:
  assumes "wfStore self"
  shows "ring (fst (flushH self now n)) = ring self
         \<and> cursor (fst (flushH self now n)) = cursor self
         \<and> (\<forall>a<length (objects self). objects (fst (flushH self now n)) ! a = objects self ! a)
         \<and> snd (flushH self now n) = flush (absStore self) now n
         \<and> snd (flushH (fst (flushH self now n)) now n) = snd (flushH self now n)"
proof -
  have "snd (flushH (fst (flushH self now n)) now n) = flush (absStore (fst (flushH self now n))) now n"
    using flushH_keeps_wfStore(1) [OF assms] by (rule flushH_refines)
  then have "snd (flushH (fst (flushH self now n)) now n) = snd (flushH self now n)"
    by (simp add: flushH_keeps_wfStore(2) [OF assms] flushH_refines [OF assms])
  then show ?thesis
    using flushH_frame [of self now n] flushH_refines [OF assms] by simp
qed

theorem C7_witness:
  "ring (fst (flushH demo 101 10)) = ring demo
   \<and> cursor (fst (flushH demo 101 10)) = Val 101
   \<and> take 5 (objects (fst (flushH demo 101 10))) = objects demo
   \<and> snd (flushH demo 101 10)
       = [(''read'', [(''_type'', JStr ''n''), (''_value'', JArr [''H[10]=7'', ''H[20]=1''])]),
          (''write'', [(''_type'', JStr ''n''), (''_value'', JArr [''H[7]=1''])])]
   \<and> snd (flushH (fst (flushH demo 101 10)) 101 10) = snd (flushH demo 101 10)"
proof -
  have len: "length (objects demo) = 5"
    by (simp add: demo_def)
  have s0: "wfSlot (objects demo) 5 (Val 0)" and s2: "wfSlot (objects demo) 5 (Val 2)"
    by (simp_all add: demo_def wfObj_def)
  have wf: "wfStore demo"
    unfolding wfStore_def list_all_length len
  proof (intro allI impI)
    fix i assume "i < length (ring demo)"
    then have "ring demo ! i = (if i = 41 then Val 2 else if i = 40 then Val 0 else Null)"
      by (simp add: demo_def nth_list_update)
    with s0 s2 show "wfSlot (objects demo) 5 (ring demo ! i)" by simp
  qed
  have v: "flushH demo 101 10
         = (demo\<lparr>objects := objects demo @
               [[(''read'', HRef 6), (''write'', HRef 7)],
                [(''10'', HNum (Num 7)), (''20'', HNum (Num 1))], [(''7'', HNum (Num 1))]]\<rparr>,
            [(''read'', [(''_type'', JStr ''n''), (''_value'', JArr [''H[10]=7'', ''H[20]=1''])]),
             (''write'', [(''_type'', JStr ''n''), (''_value'', JArr [''H[7]=1''])])])"
    by (simp add: demo_def heap_defs js_defs showNat.simps)
  show ?thesis
    using C7_flush_is_a_pure_read [OF wf, of 101 10]
    by (simp add: v) (simp add: demo_def)
qed

end
